theory Spec2Isabelle
  imports Complex_Main "HOL-Library.Word"
begin
unbundle bit_operations_syntax

section \<open>netutil: masking an IP address\<close>

text \<open>
  A Go \<^verbatim>\<open>net.IP\<close> is a byte slice: 4 bytes for the short IPv4 form, 16 bytes for the
  IPv6 form and for IPv4-mapped addresses. The nil slice is the empty list: the
  functions below return nil or a slice of 4 or 16 bytes, never an empty non-nil one.
\<close>

type_synonym byte = "8 word"
type_synonym IP = "byte list"
type_synonym IPMask = "byte list"

definition IPv4len :: nat where
  "IPv4len = 4"

definition IPv6len :: nat where
  "IPv6len = 16"

definition v4InV6Prefix :: "byte list" where
  "v4InV6Prefix = [0, 0, 0, 0, 0, 0, 0, 0, 0, 0, 255, 255]"

text \<open>
  \<^verbatim>\<open>net.CIDRMask(ones, bits)\<close>: the loop over the \<open>bits / 8\<close> bytes of the mask, with
  the count \<open>n\<close> of one-bits still to be written.
\<close>

fun cidrBytes :: "nat \<Rightarrow> nat \<Rightarrow> byte list" where
  "cidrBytes 0 n = []"
| "cidrBytes (Suc l) n =
     (if 8 \<le> n then 255 # cidrBytes l (n - 8)
      else NOT (drop_bit n (255 :: byte)) # cidrBytes l 0)"

definition CIDRMask :: "int \<Rightarrow> int \<Rightarrow> IPMask" where
  "CIDRMask ones bits =
     (if bits \<noteq> 8 * int IPv4len \<and> bits \<noteq> 8 * int IPv6len then []
      else if ones < 0 \<or> bits < ones then []
      else cidrBytes (nat (bits div 8)) (nat ones))"

definition ipv4Mask24 :: IPMask where
  "ipv4Mask24 = CIDRMask 24 32"

definition ipv6Mask48 :: IPMask where
  "ipv6Mask48 = CIDRMask 48 128"

definition isZeros :: "byte list \<Rightarrow> bool" where
  "isZeros p = list_all (\<lambda>b. b = 0) p"

definition allFF :: "byte list \<Rightarrow> bool" where
  "allFF b = list_all (\<lambda>c. c = 255) b"

text \<open>\<^verbatim>\<open>IP.To4\<close>: the 4-byte form of an IPv4 address, nil for anything else.\<close>

definition To4 :: "IP \<Rightarrow> IP" where
  "To4 ip =
     (if length ip = IPv4len then ip
      else if length ip = IPv6len \<and> isZeros (take 10 ip) \<and> ip ! 10 = 255 \<and> ip ! 11 = 255
        then drop 12 ip
      else [])"

text \<open>\<^verbatim>\<open>IP.Mask\<close>: the bytewise AND with the mask, nil when the lengths do not fit.\<close>

definition Mask :: "IP \<Rightarrow> IPMask \<Rightarrow> IP" where
  "Mask ip msk =
     (let mask1 = (if length msk = IPv6len \<and> length ip = IPv4len \<and> allFF (take 12 msk)
                   then drop 12 msk else msk);
          ip1 = (if length mask1 = IPv4len \<and> length ip = IPv6len \<and> take 12 ip = v4InV6Prefix
                 then drop 12 ip else ip)
      in if length ip1 \<noteq> length mask1 then []
         else map (\<lambda>(a, m). a AND m) (zip ip1 mask1))"

definition MaskIP :: "IP \<Rightarrow> IP" where
  "MaskIP ip =
     (let ip4 = To4 ip
      in if ip4 \<noteq> [] then Mask ip4 ipv4Mask24 else Mask ip ipv6Mask48)"

text \<open>The two classes of addresses that \<open>MaskIP\<close> tells apart, as Go does, by \<open>To4\<close>.\<close>

definition isIPv4 :: "IP \<Rightarrow> bool" where
  "isIPv4 ip = (To4 ip \<noteq> [])"

definition isIPv6 :: "IP \<Rightarrow> bool" where
  "isIPv6 ip = (length ip = IPv6len \<and> To4 ip = [])"

section \<open>freebie: the in-memory store\<close>

text \<open>
  \<^verbatim>\<open>type Count uint16\<close>. The store keeps one counter per masked address; the key is the
  text of the masked address, \<^verbatim>\<open>MaskIP(ip).String()\<close>. The formatting function
  \<^verbatim>\<open>net.IP.String\<close> belongs to Go's library and is a parameter \<open>str\<close> here.
\<close>

type_synonym Count = "16 word"

record memStore =
  numFreebies :: Count
  freebieCounter :: "string \<rightharpoonup> Count"

definition getKey :: "(IP \<Rightarrow> string) \<Rightarrow> memStore \<Rightarrow> IP \<Rightarrow> string" where
  "getKey str m ip = str (MaskIP ip)"

definition currentCount :: "(IP \<Rightarrow> string) \<Rightarrow> memStore \<Rightarrow> IP \<Rightarrow> Count" where
  "currentCount str m ip =
     (case freebieCounter m (getKey str m ip) of None \<Rightarrow> 0 | Some counter \<Rightarrow> counter)"

text \<open>Both operations return a pair (result, error); the error is always nil (\<open>None\<close>).\<close>

definition CanPass :: "(IP \<Rightarrow> string) \<Rightarrow> memStore \<Rightarrow> IP \<Rightarrow> bool \<times> string option" where
  "CanPass str m ip = (currentCount str m ip < numFreebies m, None)"

definition TallyFreebie ::
  "(IP \<Rightarrow> string) \<Rightarrow> memStore \<Rightarrow> IP \<Rightarrow> (bool \<times> string option) \<times> memStore" where
  "TallyFreebie str m ip =
     (let counter = currentCount str m ip + 1
      in ((True, None),
          m\<lparr>freebieCounter := (freebieCounter m)(getKey str m ip \<mapsto> counter)\<rparr>))"

definition NewMemIPMaskStore :: "Count \<Rightarrow> memStore" where
  "NewMemIPMaskStore n = \<lparr>numFreebies = n, freebieCounter = Map.empty\<rparr>"

text \<open>\<open>tallies str ip n m\<close>: the store after \<open>n\<close> calls of \<open>TallyFreebie\<close> for \<open>ip\<close>.\<close>

fun tallies :: "(IP \<Rightarrow> string) \<Rightarrow> IP \<Rightarrow> nat \<Rightarrow> memStore \<Rightarrow> memStore" where
  "tallies str ip 0 m = m"
| "tallies str ip (Suc n) m = tallies str ip n (snd (TallyFreebie str m ip))"

section \<open>proxy: rate limit rules\<close>

text \<open>
  A \<^verbatim>\<open>time.Duration\<close> is counted in seconds, as a real number, and so is a point in
  time (seconds since Go's zero time). Go counts nanoseconds in an \<^verbatim>\<open>int64\<close>; the
  delays of the token bucket below are exact quotients, so the model keeps exact
  numbers and leaves the rounding to nanoseconds and to \<^verbatim>\<open>float64\<close> out.
\<close>

type_synonym Duration = real

definition Second :: Duration where
  "Second = 1"

definition Millisecond :: Duration where
  "Millisecond = 1 / 1000"

definition Seconds :: "Duration \<Rightarrow> real" where
  "Seconds d = d"

text \<open>
  The compiled regular expression is a value of Go's \<^verbatim>\<open>regexp\<close> library: the model
  keeps what \<^verbatim>\<open>MatchString\<close> answers, and \<open>None\<close> for the nil pointer.
\<close>

record RateLimitConfig =
  PathRegexp :: string
  Requests :: int
  Per :: Duration
  Burst :: int
  compiledPathRegexp :: "(string \<Rightarrow> bool) option"

definition Rate :: "RateLimitConfig \<Rightarrow> real" where
  "Rate r = (if Per r = 0 then 0 else real_of_int (Requests r) / Seconds (Per r))"

definition EffectiveBurst :: "RateLimitConfig \<Rightarrow> int" where
  "EffectiveBurst r = (if Burst r = 0 then Requests r else Burst r)"

definition Matches :: "RateLimitConfig \<Rightarrow> string \<Rightarrow> bool" where
  "Matches r path = (case compiledPathRegexp r of None \<Rightarrow> True | Some re \<Rightarrow> re path)"

section \<open>The token bucket\<close>

text \<open>
  The bucket of a client and a rule is a \<^verbatim>\<open>rate.Limiter\<close> of the library
  golang.org/x/time/rate, and a reservation is its \<^verbatim>\<open>rate.Reservation\<close>. The
  library is not among the sources: the bucket follows sections 3 and 4.4 of the
  specification, with exact numbers for tokens and times.
\<close>

text \<open>
  Modelled from the spec: the state of \<^verbatim>\<open>rate.Limiter\<close>, the four fields of the
  token bucket of section 3.
\<close>

record Limiter =
  ratePerSecond :: real
  burst :: int
  availableTokens :: real
  lastUpdateTime :: real

text \<open>
  Modelled from the spec: \<^verbatim>\<open>rate.Reservation\<close>, the tagged result of section 9 with
  the bucket it was made on; \<open>limiter\<close> is the address of that bucket in the store
  of the rate limiter.
\<close>

record Reservation =
  ok :: bool
  delay :: Duration
  committedDebit :: real
  limiter :: nat

text \<open>
  Modelled from the spec: \<^verbatim>\<open>rate.NewLimiter\<close>. A new bucket starts full (section
  4.6, step 1); its last update is the zero time.
\<close>

definition NewLimiter :: "real \<Rightarrow> int \<Rightarrow> Limiter" where
  "NewLimiter r b =
     \<lparr>ratePerSecond = r, burst = b, availableTokens = of_int b, lastUpdateTime = 0\<rparr>"

text \<open>
  Modelled from the spec: the lazy refill, step 1 of \<open>reserve\<close> in section 4.4. The
  tokens of the bucket at the time \<open>now\<close> are its tokens plus the elapsed time
  times the rate, clamped to the burst. A rate that is not positive refills nothing,
  and a clock that reads less than the last update counts as no time elapsed.
\<close>

definition credited :: "real \<Rightarrow> Limiter \<Rightarrow> real" where
  "credited now l =
     min (of_int (burst l))
       (availableTokens l +
        (if ratePerSecond l \<le> 0 then 0
         else max 0 (now - lastUpdateTime l) * ratePerSecond l))"

text \<open>
  Modelled from the spec: \<^verbatim>\<open>Limiter.Reserve\<close>, the operation \<open>reserve\<close> of section
  4.4, made at the time \<open>now\<close> on the bucket \<open>l\<close> at the address \<open>a\<close>. The bucket is
  refilled and debited by one token unconditionally. The delay is
  \<open>max 0 (- tokensAfterDebit / ratePerSecond)\<close>. A bucket that cannot refill "always
  denies once its burst is exhausted" (section 3): a debit that it cannot cover can
  never succeed by waiting, and its reservation is the one that is not OK (step 3),
  with the fixed fallback wait of one second.
\<close>

definition reserve :: "real \<Rightarrow> nat \<Rightarrow> Limiter \<Rightarrow> Limiter \<times> Reservation" where
  "reserve now a l =
     (let tokensAfterDebit = credited now l - 1;
          l' = l\<lparr>availableTokens := tokensAfterDebit, lastUpdateTime := now\<rparr>
      in if ratePerSecond l \<le> 0 \<and> tokensAfterDebit < 0
         then (l', \<lparr>ok = False, delay = Second, committedDebit = 1, limiter = a\<rparr>)
         else (l', \<lparr>ok = True,
                    delay = (if ratePerSecond l \<le> 0 then 0
                             else max 0 (- tokensAfterDebit / ratePerSecond l)),
                    committedDebit = 1, limiter = a\<rparr>))"

text \<open>
  Modelled from the spec: \<^verbatim>\<open>Reservation.Cancel\<close>, the operation \<open>cancel\<close> of section
  4.4: the debit is credited back to the current state of the bucket.
\<close>

definition cancel :: "Reservation \<Rightarrow> Limiter \<Rightarrow> Limiter" where
  "cancel r l = l\<lparr>availableTokens := availableTokens l + committedDebit r\<rparr>"

text \<open>Modelled from the spec: \<^verbatim>\<open>Reservation.OK\<close> and \<^verbatim>\<open>Reservation.Delay\<close>.\<close>

definition OK :: "Reservation \<Rightarrow> bool" where
  "OK r = ok r"

definition Delay :: "Reservation \<Rightarrow> Duration" where
  "Delay r = delay r"

section \<open>The bounded bucket cache\<close>

text \<open>
  The cache is an \<^verbatim>\<open>lru.Cache\<close> of the library lightninglabs/neutrino, which is not
  among the sources: it follows sections 3 and 4.5 of the specification.
\<close>

text \<open>
  Modelled from the spec: the state of \<^verbatim>\<open>lru.Cache\<close>. The entries are listed from
  the most recently used to the least recently used; every entry has size 1, so the
  capacity counts entries.
\<close>

record ('k, 'v) Cache =
  capacity :: nat
  entries :: "('k \<times> 'v) list"

text \<open>Modelled from the spec: \<^verbatim>\<open>lru.NewCache\<close>, an empty cache of the given capacity.\<close>

definition NewCache :: "nat \<Rightarrow> ('k, 'v) Cache" where
  "NewCache n = \<lparr>capacity = n, entries = []\<rparr>"

text \<open>
  Modelled from the spec: \<^verbatim>\<open>Cache.Get\<close>, the operation \<open>get\<close> of section 4.5. A hit
  moves the entry to the front; a miss, where the Go method returns an error, is
  \<open>None\<close>.
\<close>

definition Get :: "'k \<Rightarrow> ('k, 'v) Cache \<Rightarrow> 'v option \<times> ('k, 'v) Cache" where
  "Get key c =
     (case map_of (entries c) key of
        None \<Rightarrow> (None, c)
      | Some v \<Rightarrow> (Some v, c\<lparr>entries := (key, v) # filter (\<lambda>e. fst e \<noteq> key) (entries c)\<rparr>))"

text \<open>
  Modelled from the spec: \<^verbatim>\<open>Cache.Put\<close>, the operation \<open>put\<close> of section 4.5. The
  entry is inserted at the front, in place of an entry of the same key; when the
  cache is at capacity the last entry, the least recently used, is evicted, and the
  result tells so. The ceiling is hard: a cache of capacity 0 takes no entry.
\<close>

definition Put :: "'k \<Rightarrow> 'v \<Rightarrow> ('k, 'v) Cache \<Rightarrow> bool \<times> ('k, 'v) Cache" where
  "Put key v c =
     (if capacity c < 1 then (False, c)
      else let es = filter (\<lambda>e. fst e \<noteq> key) (entries c)
           in if capacity c \<le> length es
              then (True, c\<lparr>entries := (key, v) # butlast es\<rparr>)
              else (False, c\<lparr>entries := (key, v) # es\<rparr>))"

text \<open>Modelled from the spec: \<^verbatim>\<open>Cache.Len\<close>, the operation \<open>size\<close> of section 4.5.\<close>

definition Len :: "('k, 'v) Cache \<Rightarrow> nat" where
  "Len c = length (entries c)"

section \<open>proxy: the rate limiter\<close>

definition DefaultMaxCacheSize :: int where
  "DefaultMaxCacheSize = 10000"

datatype limiterKey = LimiterKey (clientKey: string) (pathPattern: string)

text \<open>
  The counters of the package, labelled by service and path pattern (allowed,
  denied) or by service (cache size, evictions).
\<close>

record Metrics =
  rateLimitAllowed :: "string \<times> string \<Rightarrow> nat"
  rateLimitDenied :: "string \<times> string \<Rightarrow> nat"
  rateLimitCacheSize :: "string \<Rightarrow> nat"
  rateLimitEvictions :: "string \<Rightarrow> nat"

definition Inc :: "'a \<Rightarrow> ('a \<Rightarrow> nat) \<Rightarrow> ('a \<Rightarrow> nat)" where
  "Inc labels c = c(labels := c labels + 1)"

text \<open>
  The limiter holds pointers to \<^verbatim>\<open>rate.Limiter\<close> objects, in its cache and, during a
  call, in the reservations. The objects live in the store \<open>limiters\<close>; a pointer is
  an index into it, and a new object is appended. The cache entry
  \<^verbatim>\<open>limiterEntry\<close> has the pointer as its only field and is identified with it. The
  state also carries the counters, which the Go code keeps in package variables.
  The mutex is not modelled: a call runs from beginning to end on the state.
\<close>

record RateLimiter =
  configs :: "RateLimitConfig list"
  cache :: "(limiterKey, nat) Cache"
  maxSize :: int
  serviceName :: string
  limiters :: "Limiter list"
  metrics :: Metrics

definition WithMaxCacheSize :: "int \<Rightarrow> RateLimiter \<Rightarrow> RateLimiter" where
  "WithMaxCacheSize size' rl = rl\<lparr>maxSize := size'\<rparr>"

text \<open>The conversion \<^verbatim>\<open>uint64(n)\<close> of an \<^verbatim>\<open>int\<close>.\<close>

definition uint64 :: "int \<Rightarrow> nat" where
  "uint64 n = nat (n mod 2 ^ 64)"

definition noMetrics :: Metrics where
  "noMetrics = \<lparr>rateLimitAllowed = (\<lambda>_. 0), rateLimitDenied = (\<lambda>_. 0),
                 rateLimitCacheSize = (\<lambda>_. 0), rateLimitEvictions = (\<lambda>_. 0)\<rparr>"

definition NewRateLimiter ::
  "string \<Rightarrow> RateLimitConfig list \<Rightarrow> (RateLimiter \<Rightarrow> RateLimiter) list \<Rightarrow> RateLimiter" where
  "NewRateLimiter name cfgs opts =
     (let rl = fold (\<lambda>opt rl. opt rl) opts
                 \<lparr>configs = cfgs, cache = NewCache 0, maxSize = DefaultMaxCacheSize,
                  serviceName = name, limiters = [], metrics = noMetrics\<rparr>
      in rl\<lparr>cache := NewCache (uint64 (maxSize rl))\<rparr>)"

text \<open>\<open>getOrCreateLimiter\<close> returns the pointer to the limiter and the new state.\<close>

definition getOrCreateLimiter ::
  "limiterKey \<Rightarrow> RateLimitConfig \<Rightarrow> RateLimiter \<Rightarrow> nat \<times> RateLimiter" where
  "getOrCreateLimiter key cfg rl =
     (case Get key (cache rl) of
        (Some entry, c) \<Rightarrow> (entry, rl\<lparr>cache := c\<rparr>)
      | (None, c) \<Rightarrow>
          (let l = NewLimiter (Rate cfg) (EffectiveBurst cfg);
               a = length (limiters rl);
               (evicted, c') = Put key a c;
               m = metrics rl;
               m1 = (if evicted
                     then m\<lparr>rateLimitEvictions := Inc (serviceName rl) (rateLimitEvictions m)\<rparr>
                     else m);
               m2 = m1\<lparr>rateLimitCacheSize := (rateLimitCacheSize m1)(serviceName rl := Len c')\<rparr>
           in (a, rl\<lparr>cache := c', limiters := limiters rl @ [l], metrics := m2\<rparr>)))"

text \<open>\<open>Reserve\<close> and \<open>Cancel\<close> on the store: the limiter behind the pointer is updated.\<close>

definition Reserve :: "nat \<Rightarrow> real \<Rightarrow> RateLimiter \<Rightarrow> Reservation \<times> RateLimiter" where
  "Reserve a now rl =
     (let (l, r) = reserve now a (limiters rl ! a)
      in (r, rl\<lparr>limiters := (limiters rl)[a := l]\<rparr>))"

definition Cancel :: "Reservation \<Rightarrow> RateLimiter \<Rightarrow> RateLimiter" where
  "Cancel r rl =
     rl\<lparr>limiters := (limiters rl)[limiter r := cancel r (limiters rl ! limiter r)]\<rparr>"

record ruleReservation =
  cfg :: RateLimitConfig
  reservation :: Reservation

text \<open>
  The first loop of \<open>Allow\<close>, over the configurations: every matching rule gets its
  limiter and reserves; \<open>rs\<close> is the slice \<open>reservations\<close> built so far.
\<close>

fun collectReservations ::
  "RateLimitConfig list \<Rightarrow> string \<Rightarrow> string \<Rightarrow> real \<Rightarrow> RateLimiter \<Rightarrow> ruleReservation list
   \<Rightarrow> ruleReservation list \<times> RateLimiter" where
  "collectReservations [] path key now rl rs = (rs, rl)"
| "collectReservations (c # cs) path key now rl rs =
     (if \<not> Matches c path then collectReservations cs path key now rl rs
      else let cacheKey = LimiterKey key (PathRegexp c);
               (a, rl1) = getOrCreateLimiter cacheKey c rl;
               (r, rl2) = Reserve a now rl1
           in collectReservations cs path key now rl2
                (rs @ [\<lparr>cfg = c, reservation = r\<rparr>]))"

text \<open>
  The second loop, with its variables \<open>maxWait\<close> and \<open>allAllowed\<close>; it stops at the
  first reservation that is not OK.
\<close>

fun checkReservations ::
  "ruleReservation list \<Rightarrow> Duration \<Rightarrow> bool \<Rightarrow> bool \<times> Duration" where
  "checkReservations [] maxWait allAllowed = (allAllowed, maxWait)"
| "checkReservations (rr # rrs) maxWait allAllowed =
     (if \<not> OK (reservation rr) then (False, Second)
      else let d = Delay (reservation rr)
           in if 0 < d
              then checkReservations rrs (if maxWait < d then d else maxWait) False
              else checkReservations rrs maxWait allAllowed)"

text \<open>The loop of the denial: every reservation is cancelled and counted.\<close>

fun cancelReservations :: "ruleReservation list \<Rightarrow> RateLimiter \<Rightarrow> RateLimiter" where
  "cancelReservations [] rl = rl"
| "cancelReservations (rr # rrs) rl =
     (let rl1 = Cancel (reservation rr) rl;
          m = metrics rl1
      in cancelReservations rrs
           (rl1\<lparr>metrics := m\<lparr>rateLimitDenied :=
              Inc (serviceName rl1, PathRegexp (cfg rr)) (rateLimitDenied m)\<rparr>\<rparr>))"

text \<open>The loop of the permission: the debits stay, every rule is counted.\<close>

fun countAllowed :: "ruleReservation list \<Rightarrow> RateLimiter \<Rightarrow> RateLimiter" where
  "countAllowed [] rl = rl"
| "countAllowed (rr # rrs) rl =
     (let m = metrics rl
      in countAllowed rrs
           (rl\<lparr>metrics := m\<lparr>rateLimitAllowed :=
              Inc (serviceName rl, PathRegexp (cfg rr)) (rateLimitAllowed m)\<rparr>\<rparr>))"

text \<open>
  A request is its URL path and its headers. \<open>Allow\<close> reads the clock inside
  \<^verbatim>\<open>Reserve\<close>, \<^verbatim>\<open>Delay\<close> and \<^verbatim>\<open>Cancel\<close>; the call holds the mutex and does no
  input or output, and the model gives it one reading \<open>now\<close>. The result is the pair
  (allowed, retryAfter) and the new state.
\<close>

record Request =
  URL_Path :: string
  Header :: "string \<rightharpoonup> string list"

definition Allow ::
  "Request \<Rightarrow> string \<Rightarrow> real \<Rightarrow> RateLimiter \<Rightarrow> (bool \<times> Duration) \<times> RateLimiter" where
  "Allow r key now rl =
     (let path = URL_Path r;
          (reservations, rl1) = collectReservations (configs rl) path key now rl []
      in if length reservations = 0 then ((True, 0), rl1)
         else let (allAllowed, maxWait) = checkReservations reservations 0 True
              in if \<not> allAllowed then ((False, maxWait), cancelReservations reservations rl1)
                 else ((True, 0), countAllowed reservations rl1))"

definition Size :: "RateLimiter \<Rightarrow> nat" where
  "Size rl = Len (cache rl)"

section \<open>proxy: the key of a client\<close>

text \<open>
  \<open>ExtractRateLimitKey\<close> calls into the package l402 and into Go's library; these
  collaborators are parameters:
  \<^item> \<open>FromHeader\<close> is \<^verbatim>\<open>l402.FromHeader\<close>, returning the macaroon (or nil) and the
    error (or nil); the preimage it also returns is not used;
  \<^item> \<open>macId\<close> is the method \<^verbatim>\<open>Id\<close> of the macaroon;
  \<^item> \<open>DecodeIdentifier\<close> is \<^verbatim>\<open>l402.DecodeIdentifier\<close>, an error or an identifier;
  \<^item> \<open>tokenIDString\<close> is the text of the identifier's token ID;
  \<^item> \<open>ipString\<close> is \<^verbatim>\<open>net.IP.String\<close>.
\<close>

definition ExtractRateLimitKey ::
  "((string \<rightharpoonup> string list) \<Rightarrow> 'mac option \<times> 'err option) \<Rightarrow> ('mac \<Rightarrow> byte list)
   \<Rightarrow> (byte list \<Rightarrow> 'err + 'ident) \<Rightarrow> ('ident \<Rightarrow> string) \<Rightarrow> (IP \<Rightarrow> string)
   \<Rightarrow> Request \<Rightarrow> IP \<Rightarrow> bool \<Rightarrow> string" where
  "ExtractRateLimitKey FromHeader macId DecodeIdentifier tokenIDString ipString r remoteIP authenticated =
     (let fallback = ''ip:'' @ ipString (MaskIP remoteIP)
      in if authenticated
         then (case FromHeader (Header r) of
                 (Some mac, None) \<Rightarrow>
                   (case DecodeIdentifier (macId mac) of
                      Inr identifier \<Rightarrow> ''token:'' @ tokenIDString identifier
                    | Inl err \<Rightarrow> fallback)
               | _ \<Rightarrow> fallback)
         else fallback)"

section \<open>proxy: the denial response\<close>

text \<open>\<^verbatim>\<open>strconv.Itoa\<close>: the decimal text of an integer.\<close>

definition digit :: "nat \<Rightarrow> char" where
  "digit n = ''0123456789'' ! n"

function digits :: "nat \<Rightarrow> string" where
  "digits n = (if n < 10 then [digit n] else digits (n div 10) @ [digit (n mod 10)])"
  by pat_completeness auto
termination
  by (relation "measure id") auto

definition Itoa :: "int \<Rightarrow> string" where
  "Itoa i = (if i < 0 then CHR ''-'' # digits (nat (- i)) else digits (nat i))"

record ResponseWriter =
  Code :: nat
  ResponseHeader :: "string \<rightharpoonup> string"
  Body :: string

definition StatusOK :: nat where
  "StatusOK = 200"

definition StatusTooManyRequests :: nat where
  "StatusTooManyRequests = 429"

text \<open>\<^verbatim>\<open>Header.Get\<close>: the first value of a header, the empty string when there is none.\<close>

definition Header_Get :: "(string \<rightharpoonup> string list) \<Rightarrow> string \<Rightarrow> string" where
  "Header_Get h name = (case h name of Some (v # vs) \<Rightarrow> v | _ \<Rightarrow> [])"

text \<open>
  The function \<^verbatim>\<open>sendRateLimitResponse\<close> is not among the sources; only its tests
  are. It follows section 4.7 of the specification.
\<close>

text \<open>
  Modelled from the spec: the protocol hint of \<^verbatim>\<open>sendRateLimitResponse\<close>. A request
  of the streaming-RPC protocol is told by its content type, which begins with
  \<^verbatim>\<open>application/grpc\<close>.
\<close>

definition isGRPC :: "Request \<Rightarrow> bool" where
  "isGRPC r = (take 16 (Header_Get (Header r) ''Content-Type'') = ''application/grpc'')"

text \<open>
  Modelled from the spec: the number of seconds that \<^verbatim>\<open>sendRateLimitResponse\<close>
  writes, the advised wait rounded up to whole seconds.
\<close>

definition retrySeconds :: "Duration \<Rightarrow> int" where
  "retrySeconds retryAfter = \<lceil>Seconds retryAfter\<rceil>"

text \<open>
  Modelled from the spec: \<^verbatim>\<open>sendRateLimitResponse\<close>. Both denials carry the header
  Retry-After. The denial of a streaming-RPC request keeps the transport status 200
  and carries the status 8 (resource exhausted) and the message in headers; the
  denial of a plain request has the status 429 and the message in its body.
\<close>

definition sendRateLimitResponse :: "ResponseWriter \<Rightarrow> Request \<Rightarrow> Duration \<Rightarrow> ResponseWriter" where
  "sendRateLimitResponse w r retryAfter =
     (let w1 = w\<lparr>ResponseHeader :=
                  (ResponseHeader w)(''Retry-After'' \<mapsto> Itoa (retrySeconds retryAfter))\<rparr>
      in if isGRPC r
         then w1\<lparr>ResponseHeader :=
                   (ResponseHeader w1)(''Grpc-Status'' \<mapsto> ''8'',
                                       ''Grpc-Message'' \<mapsto> ''rate limit exceeded''),
                 Code := StatusOK\<rparr>
         else w1\<lparr>Code := StatusTooManyRequests, Body := Body w1 @ ''rate limit exceeded''\<rparr>)"

section \<open>Sequences of calls\<close>

text \<open>
  \<open>AllowCalls\<close> runs one call of \<open>Allow\<close> after the other, each with its request, its
  client key and its time, and returns the results in order and the last state.
  \<open>getOrCreateLimiters\<close> does the same for the lookups of a list of cache keys.
\<close>

fun AllowCalls ::
  "(Request \<times> string \<times> real) list \<Rightarrow> RateLimiter \<Rightarrow> (bool \<times> Duration) list \<times> RateLimiter" where
  "AllowCalls [] rl = ([], rl)"
| "AllowCalls ((r, key, now) # calls) rl =
     (let (res, rl1) = Allow r key now rl;
          (ress, rl2) = AllowCalls calls rl1
      in (res # ress, rl2))"

fun getOrCreateLimiters :: "limiterKey list \<Rightarrow> RateLimitConfig \<Rightarrow> RateLimiter \<Rightarrow> RateLimiter" where
  "getOrCreateLimiters [] c rl = rl"
| "getOrCreateLimiters (k # ks) c rl = getOrCreateLimiters ks c (snd (getOrCreateLimiter k c rl))"

text \<open>The bound of the cache: it holds no more entries than its capacity.\<close>

definition bounded :: "RateLimiter \<Rightarrow> bool" where
  "bounded rl = (Len (cache rl) \<le> capacity (cache rl))"

section \<open>Notions of the specification\<close>

text \<open>
  The advised wait as the specification words it (section 4.6, step 3): a
  reservation denies when it is not OK or has a positive delay; the advised wait is
  the maximum over the denying reservations of their delays, a reservation that is
  not OK counting with the fallback of one second. This definition follows the
  specification and is compared with what \<open>Allow\<close> returns.
\<close>

definition denying :: "ruleReservation \<Rightarrow> bool" where
  "denying rr = (\<not> OK (reservation rr) \<or> 0 < Delay (reservation rr))"

definition contribution :: "ruleReservation \<Rightarrow> Duration" where
  "contribution rr = (if OK (reservation rr) then Delay (reservation rr) else Second)"

definition maxDenyingDelay :: "ruleReservation list \<Rightarrow> Duration" where
  "maxDenyingDelay rs = Max (set (map contribution (filter denying rs)))"

text \<open>
  The pointers of a well-formed state point into the store: every limiter of the
  cache has been allocated.
\<close>

definition wellFormed :: "RateLimiter \<Rightarrow> bool" where
  "wellFormed rl = list_all (\<lambda>e. snd e < length (limiters rl)) (entries (cache rl))"




text \<open>The rate at which a bucket refills: a rate that is not positive refills nothing.\<close>

definition refillRate :: "real \<Rightarrow> real" where
  "refillRate x = (if x \<le> 0 then 0 else x)"

text \<open>
  The number of the rules in \<open>cs\<close> that match the path and whose bucket for the client
  is not in the cache: the buckets that a call has to create.
\<close>

definition missingBuckets :: "RateLimitConfig list \<Rightarrow> string \<Rightarrow> string \<Rightarrow> RateLimiter \<Rightarrow> nat" where
  "missingBuckets cs path key rl =
     length (filter (\<lambda>c. Matches c path
                          \<and> map_of (entries (cache rl)) (LimiterKey key (PathRegexp c)) = None) cs)"

section \<open>Example configurations\<close>

text \<open>
  The layered configuration of the tests: a global rule for every path and a
  stricter rule for one path, here with bursts 3 and 1, and a client that has made
  one permitted request to the expensive path at the time 0.
\<close>

definition globalRule :: RateLimitConfig where
  "globalRule = \<lparr>PathRegexp = [], Requests = 3, Per = Second, Burst = 3,
                  compiledPathRegexp = None\<rparr>"

definition expensiveRule :: RateLimitConfig where
  "expensiveRule = \<lparr>PathRegexp = ''^/expensive$'', Requests = 1, Per = Second, Burst = 1,
                     compiledPathRegexp = Some ((=) ''/expensive'')\<rparr>"

definition getExpensive :: Request where
  "getExpensive = \<lparr>URL_Path = ''/expensive'', Header = Map.empty\<rparr>"

definition layeredLimiter :: RateLimiter where
  "layeredLimiter = NewRateLimiter ''svc'' [globalRule, expensiveRule] []"

definition layeredAfterOne :: RateLimiter where
  "layeredAfterOne = snd (Allow getExpensive ''client'' 0 layeredLimiter)"

text \<open>
  A rule of one request per ten seconds for every path, layered with a rule whose
  window \<open>Per\<close> is zero, and a client that has made one permitted request.
\<close>

definition tenSecondRule :: RateLimitConfig where
  "tenSecondRule = \<lparr>PathRegexp = [], Requests = 1, Per = 10 * Second, Burst = 1,
                     compiledPathRegexp = None\<rparr>"

definition noWindowRule :: RateLimitConfig where
  "noWindowRule = \<lparr>PathRegexp = ''^/expensive$'', Requests = 1, Per = 0, Burst = 1,
                    compiledPathRegexp = Some ((=) ''/expensive'')\<rparr>"

definition slowLimiter :: RateLimiter where
  "slowLimiter = NewRateLimiter ''svc'' [tenSecondRule, noWindowRule] []"

definition slowAfterOne :: RateLimiter where
  "slowAfterOne = snd (Allow getExpensive ''client'' 0 slowLimiter)"

text \<open>
  A limiter whose cache holds one entry, with the expensive rule alone: the client
  \<open>a\<close> uses its only token, then the client \<open>b\<close> makes a request.
\<close>

definition tinyLimiter :: RateLimiter where
  "tinyLimiter = NewRateLimiter ''svc'' [expensiveRule] [WithMaxCacheSize 1]"

definition tinyExhausted :: RateLimiter where
  "tinyExhausted = snd (Allow getExpensive ''a'' 0 tinyLimiter)"

definition tinyEvicted :: RateLimiter where
  "tinyEvicted = snd (Allow getExpensive ''b'' 0 tinyExhausted)"




section \<open>Properties of the address mask\<close>

lemma ipv4Mask24_bytes: "ipv4Mask24 = [255, 255, 255, 0]"
  by code_simp

lemma ipv6Mask48_bytes: "ipv6Mask48 = replicate 6 255 @ replicate 10 0"
  by code_simp

lemma and_255: "a AND 255 = (a :: byte)"
proof -
  have "(255 :: byte) = - 1" by simp
  then show ?thesis by (simp only: and.right_neutral)
qed

lemma and_zip_replicate:
  "length xs = n \<Longrightarrow>
   map (\<lambda>(a, m). a AND m) (zip xs (replicate n (c :: byte))) = map (\<lambda>a. a AND c) xs"
  by (induction xs arbitrary: n) auto

lemma and_zip_prefix_mask:
  assumes "length (xs :: byte list) = n + k"
  shows "map (\<lambda>(a, m). a AND m) (zip xs (replicate n 255 @ replicate k 0))
         = take n xs @ replicate k 0"
proof -
  have "zip xs (replicate n 255 @ replicate k (0 :: byte))
        = zip (take n xs) (replicate n 255) @ zip (drop n xs) (replicate k 0)"
    by (simp add: zip_append2)
  moreover have "length (take n xs) = n" "length (drop n xs) = k"
    using assms by simp_all
  ultimately show ?thesis
    by (simp add: and_zip_replicate map_replicate_const and_255)
qed

lemma Mask_v4: "length ip = 4 \<Longrightarrow> Mask ip ipv4Mask24 = take 3 ip @ [0]"
  using and_zip_prefix_mask [of ip 3 1]
  by (simp add: Mask_def ipv4Mask24_bytes IPv4len_def IPv6len_def numeral_eq_Suc)

lemma Mask_v6: "length ip = 16 \<Longrightarrow> Mask ip ipv6Mask48 = take 6 ip @ replicate 10 0"
  using and_zip_prefix_mask [of ip 6 10]
  by (simp add: Mask_def ipv6Mask48_bytes IPv4len_def IPv6len_def)

lemma To4_length: "To4 ip \<noteq> [] \<Longrightarrow> length (To4 ip) = 4"
  by (auto simp: To4_def IPv4len_def IPv6len_def split: if_splits)

lemma MaskIP_v4: "isIPv4 ip \<Longrightarrow> MaskIP ip = take 3 (To4 ip) @ [0]"
  by (simp add: MaskIP_def isIPv4_def Let_def Mask_v4 To4_length)

lemma MaskIP_v6: "isIPv6 ip \<Longrightarrow> MaskIP ip = take 6 ip @ replicate 10 0"
  by (simp add: MaskIP_def isIPv6_def Let_def Mask_v6 IPv6len_def)

lemma To4_short: "To4 [a, b, c, d] = [a, b, c, d]"
  by (simp add: To4_def IPv4len_def)

lemma To4_mapped: "To4 (v4InV6Prefix @ [a, b, c, d]) = [a, b, c, d]"
  by (simp add: To4_def IPv4len_def IPv6len_def v4InV6Prefix_def isZeros_def)

text \<open>
  Claim C8. \<open>MaskIP\<close> is a function of the address alone. An IPv4 address, in the
  4-byte form \<open>[a, b, c, d]\<close> or in the 16-byte IPv4-mapped form, is masked to
  \<open>[a, b, c, 0]\<close>: the last octet is zeroed. An IPv6 address keeps its first 6 bytes
  (48 bits) and has the 10 bytes after them zeroed. Hence two IPv4 addresses mask
  identically exactly when they agree on the first three octets, two IPv6 addresses
  mask identically exactly when they agree on the first 48 bits, and an IPv4 and an
  IPv6 address never mask identically.
\<close>

theorem MaskIP_groups:
  "MaskIP [a, b, c, d] = [a, b, c, 0]
   \<and> MaskIP (v4InV6Prefix @ [a, b, c, d]) = [a, b, c, 0]
   \<and> (isIPv4 p \<longrightarrow> MaskIP p = take 3 (To4 p) @ [0])
   \<and> (isIPv6 x \<longrightarrow> MaskIP x = take 6 x @ replicate 10 0)
   \<and> (isIPv4 p \<and> isIPv4 q \<longrightarrow> (MaskIP p = MaskIP q \<longleftrightarrow> take 3 (To4 p) = take 3 (To4 q)))
   \<and> (isIPv6 x \<and> isIPv6 y \<longrightarrow> (MaskIP x = MaskIP y \<longleftrightarrow> take 6 x = take 6 y))
   \<and> (isIPv4 p \<and> isIPv6 x \<longrightarrow> MaskIP p \<noteq> MaskIP x)"
proof -
  have v4: "isIPv4 [a, b, c, d]" "isIPv4 (v4InV6Prefix @ [a, b, c, d])"
    by (simp_all add: isIPv4_def To4_short To4_mapped)
  have p1: "MaskIP [a, b, c, d] = [a, b, c, 0]"
    using MaskIP_v4 [OF v4(1)] by (simp add: To4_short)
  have p2: "MaskIP (v4InV6Prefix @ [a, b, c, d]) = [a, b, c, 0]"
    using MaskIP_v4 [OF v4(2)] by (simp add: To4_mapped)
  have p3: "isIPv4 p \<and> isIPv4 q \<longrightarrow> (MaskIP p = MaskIP q \<longleftrightarrow> take 3 (To4 p) = take 3 (To4 q))"
    by (auto simp: MaskIP_v4)
  have p4: "isIPv6 x \<and> isIPv6 y \<longrightarrow> (MaskIP x = MaskIP y \<longleftrightarrow> take 6 x = take 6 y)"
    by (auto simp: MaskIP_v6 isIPv6_def IPv6len_def)
  have p5: "isIPv4 p \<and> isIPv6 x \<longrightarrow> MaskIP p \<noteq> MaskIP x"
  proof (intro impI, elim conjE)
    assume h: "isIPv4 p" "isIPv6 x"
    have "length (MaskIP p) = 4"
      using h(1) by (simp add: MaskIP_v4 isIPv4_def To4_length)
    moreover have "length (MaskIP x) = 16"
      using h(2) by (simp add: MaskIP_v6 isIPv6_def IPv6len_def)
    ultimately show "MaskIP p \<noteq> MaskIP x" by auto
  qed
  show ?thesis
    using p1 p2 p3 p4 p5 by (simp add: MaskIP_v4 MaskIP_v6)
qed

text \<open>
  The addresses of the tests: 192.168.1.100 and 192.168.2.100 in the 16-byte form
  that \<^verbatim>\<open>net.ParseIP\<close> returns, 2001:db8:1234:1:: and 2001:db8:1234:ffff::.
\<close>

theorem MaskIP_groups_witness:
  "isIPv4 (v4InV6Prefix @ [192, 168, 1, 100]) \<and> isIPv4 (v4InV6Prefix @ [192, 168, 2, 100])
   \<and> isIPv6 [32, 1, 13, 184, 18, 52, 0, 1, 0, 0, 0, 0, 0, 0, 0, 0]
   \<and> isIPv6 [32, 1, 13, 184, 18, 52, 255, 255, 0, 0, 0, 0, 0, 0, 0, 0]
   \<and> MaskIP (v4InV6Prefix @ [192, 168, 1, 100]) = [192, 168, 1, 0]
   \<and> MaskIP (v4InV6Prefix @ [192, 168, 1, 100]) \<noteq> MaskIP (v4InV6Prefix @ [192, 168, 2, 100])
   \<and> MaskIP [32, 1, 13, 184, 18, 52, 0, 1, 0, 0, 0, 0, 0, 0, 0, 0]
       = [32, 1, 13, 184, 18, 52, 0, 0, 0, 0, 0, 0, 0, 0, 0, 0]
   \<and> MaskIP [32, 1, 13, 184, 18, 52, 0, 1, 0, 0, 0, 0, 0, 0, 0, 0]
       = MaskIP [32, 1, 13, 184, 18, 52, 255, 255, 0, 0, 0, 0, 0, 0, 0, 0]
   \<and> MaskIP (v4InV6Prefix @ [192, 168, 1, 100])
       \<noteq> MaskIP [32, 1, 13, 184, 18, 52, 0, 1, 0, 0, 0, 0, 0, 0, 0, 0]"
proof -
  have h4: "isIPv4 (v4InV6Prefix @ [192, 168, 1, 100])" "isIPv4 (v4InV6Prefix @ [192, 168, 2, 100])"
    by (simp_all add: isIPv4_def To4_mapped)
  have h6: "isIPv6 [32, 1, 13, 184, 18, 52, 0, 1, 0, 0, 0, 0, 0, 0, 0, 0]"
    "isIPv6 [32, 1, 13, 184, 18, 52, 255, 255, 0, 0, 0, 0, 0, 0, 0, 0]"
    by (simp_all add: isIPv6_def To4_def IPv4len_def IPv6len_def isZeros_def)
  note T = MaskIP_groups [of 192 168 1 100 "v4InV6Prefix @ [192, 168, 1, 100]"
      "[32, 1, 13, 184, 18, 52, 0, 1, 0, 0, 0, 0, 0, 0, 0, 0]"
      "v4InV6Prefix @ [192, 168, 2, 100]"
      "[32, 1, 13, 184, 18, 52, 255, 255, 0, 0, 0, 0, 0, 0, 0, 0]"]
  have r: "replicate 10 (0 :: byte) = [0, 0, 0, 0, 0, 0, 0, 0, 0, 0]"
    by code_simp
  have c1: "MaskIP (v4InV6Prefix @ [192, 168, 1, 100]) = [192, 168, 1, 0]"
    using T by blast
  have c2: "MaskIP (v4InV6Prefix @ [192, 168, 1, 100]) \<noteq> MaskIP (v4InV6Prefix @ [192, 168, 2, 100])"
  proof -
    have "take 3 (To4 (v4InV6Prefix @ [192, 168, 1, 100]))
          \<noteq> take 3 (To4 (v4InV6Prefix @ [192, 168, 2, 100]))"
      by (simp add: To4_mapped)
    then show ?thesis using T h4 by blast
  qed
  have c3: "MaskIP [32, 1, 13, 184, 18, 52, 0, 1, 0, 0, 0, 0, 0, 0, 0, 0]
            = [32, 1, 13, 184, 18, 52, 0, 0, 0, 0, 0, 0, 0, 0, 0, 0]"
  proof -
    have "MaskIP [32, 1, 13, 184, 18, 52, 0, 1, 0, 0, 0, 0, 0, 0, 0, 0]
          = take 6 [32, 1, 13, 184, 18, 52, 0, 1, 0, 0, 0, 0, 0, 0, 0, 0] @ replicate 10 0"
      using T h6 by blast
    then show ?thesis by (simp add: r)
  qed
  have c4: "MaskIP [32, 1, 13, 184, 18, 52, 0, 1, 0, 0, 0, 0, 0, 0, 0, 0]
            = MaskIP [32, 1, 13, 184, 18, 52, 255, 255, 0, 0, 0, 0, 0, 0, 0, 0]"
  proof -
    have "take 6 [32, 1, 13, 184, 18, 52, 0, 1, 0, 0, 0, 0, 0, 0, 0, 0 :: byte]
          = take 6 [32, 1, 13, 184, 18, 52, 255, 255, 0, 0, 0, 0, 0, 0, 0, 0]"
      by simp
    then show ?thesis using T h6 by blast
  qed
  have c5: "MaskIP (v4InV6Prefix @ [192, 168, 1, 100])
            \<noteq> MaskIP [32, 1, 13, 184, 18, 52, 0, 1, 0, 0, 0, 0, 0, 0, 0, 0]"
    using T h4 h6 by blast
  show ?thesis
    using h4 h6 c1 c2 c3 c4 c5 by blast
qed

section \<open>Properties of the freebie store\<close>

lemma numFreebies_tallies: "numFreebies (tallies str ip k m) = numFreebies m"
  by (induction k arbitrary: m) (simp_all add: TallyFreebie_def)

lemma currentCount_TallyFreebie:
  "currentCount str (snd (TallyFreebie str m ip)) ip = currentCount str m ip + 1"
  by (simp add: TallyFreebie_def currentCount_def getKey_def)

lemma currentCount_tallies:
  "currentCount str (tallies str ip k m) ip = currentCount str m ip + of_nat k"
  by (induction k arbitrary: m) (simp_all add: currentCount_TallyFreebie)

lemma of_nat_below_65536: "0 < k \<Longrightarrow> k < 65536 \<Longrightarrow> (of_nat k :: 16 word) \<noteq> 0"
proof
  assume k: "0 < k" "k < 65536" and z: "(of_nat k :: 16 word) = 0"
  from z have "2 ^ LENGTH(16) dvd k" by (simp add: word_of_nat_eq_0_iff)
  then have "65536 dvd k" by simp
  then have "65536 \<le> k" using k(1) by (rule dvd_imp_le)
  with k(2) show False by simp
qed

text \<open>
  Claim C10. The counter is a 16-bit unsigned integer. \<open>TallyFreebie\<close> always returns
  (true, nil) and stores, under the key of the masked address, the current count
  plus one modulo \<open>2 ^ 16\<close>; \<open>CanPass\<close> returns (count < numFreebies, nil). After
  exactly 65536 tallies (and after no smaller positive number of them) the count of
  a client is back where it was: a new client is at 0 again, and \<open>CanPass\<close> is true
  again for it whenever the store grants any freebie at all.
\<close>

theorem freebie_count_wraps:
  "fst (TallyFreebie str m ip) = (True, None)
   \<and> freebieCounter (snd (TallyFreebie str m ip)) (str (MaskIP ip))
       = Some (currentCount str m ip + 1)
   \<and> unat (currentCount str (snd (TallyFreebie str m ip)) ip)
       = (unat (currentCount str m ip) + 1) mod 2 ^ 16
   \<and> CanPass str m ip = (currentCount str m ip < numFreebies m, None)
   \<and> currentCount str (tallies str ip 65536 m) ip = currentCount str m ip
   \<and> (\<forall>k. 0 < k \<and> k < 65536 \<longrightarrow>
         currentCount str (tallies str ip k m) ip \<noteq> currentCount str m ip)
   \<and> currentCount str (tallies str ip 65536 (NewMemIPMaskStore n)) ip = 0
   \<and> (0 < n \<longrightarrow> fst (CanPass str (tallies str ip 65536 (NewMemIPMaskStore n)) ip))"
proof -
  have a: "currentCount str (tallies str ip 65536 m) ip = currentCount str m ip" for m
    unfolding currentCount_tallies by simp
  have b: "currentCount str (NewMemIPMaskStore n) ip = 0"
    by (simp add: currentCount_def NewMemIPMaskStore_def)
  have c: "unat (currentCount str (snd (TallyFreebie str m ip)) ip)
           = (unat (currentCount str m ip) + 1) mod 2 ^ 16"
    by (simp add: currentCount_TallyFreebie unat_word_ariths)
  have d: "\<forall>k. 0 < k \<and> k < 65536 \<longrightarrow>
             currentCount str (tallies str ip k m) ip \<noteq> currentCount str m ip"
    using of_nat_below_65536 by (auto simp: currentCount_tallies)
  have e: "0 < n \<longrightarrow> fst (CanPass str (tallies str ip 65536 (NewMemIPMaskStore n)) ip)"
    using b by (simp add: CanPass_def a numFreebies_tallies) (simp add: NewMemIPMaskStore_def)
  show ?thesis
    using a b c d e
    by (simp add: TallyFreebie_def CanPass_def getKey_def)
qed

text \<open>A store granting 3 freebies: one tally changes the count, 65536 do not.\<close>

theorem freebie_count_wraps_witness:
  "(0 :: Count) < 3 \<and> (0 :: nat) < 1 \<and> (1 :: nat) < 65536
   \<and> currentCount (\<lambda>a. ''key'') (tallies (\<lambda>a. ''key'') [10, 0, 0, 7] 1 (NewMemIPMaskStore 3)) [10, 0, 0, 7]
       \<noteq> currentCount (\<lambda>a. ''key'') (NewMemIPMaskStore 3) [10, 0, 0, 7]
   \<and> fst (CanPass (\<lambda>a. ''key'') (tallies (\<lambda>a. ''key'') [10, 0, 0, 7] 65536 (NewMemIPMaskStore 3))
          [10, 0, 0, 7])"
proof -
  note T = freebie_count_wraps [of "\<lambda>a. ''key''" "NewMemIPMaskStore 3" "[10, 0, 0, 7]" 3]
  have c1: "currentCount (\<lambda>a. ''key'') (tallies (\<lambda>a. ''key'') [10, 0, 0, 7] 1 (NewMemIPMaskStore 3))
              [10, 0, 0, 7]
            \<noteq> currentCount (\<lambda>a. ''key'') (NewMemIPMaskStore 3) [10, 0, 0, 7]"
    using T by (metis zero_less_one one_less_numeral_iff semiring_norm(76))
  have c2: "fst (CanPass (\<lambda>a. ''key'') (tallies (\<lambda>a. ''key'') [10, 0, 0, 7] 65536 (NewMemIPMaskStore 3))
              [10, 0, 0, 7])"
    using T by simp
  show ?thesis
    using c1 c2 by simp
qed

section \<open>Properties of the client key\<close>

text \<open>
  Claim C6. \<open>ExtractRateLimitKey\<close> is a total function returning a string. Its
  result is \<open>''token:''\<close> followed by the text of the token ID when the request is
  authenticated, the header yields a macaroon without error and the identifier of
  the macaroon decodes; in every other case it is \<open>''ip:''\<close> followed by the text of
  the masked remote address. The result begins with \<open>''token:''\<close> exactly in the
  first case.
\<close>

theorem ExtractRateLimitKey_cases:
  "(authenticated \<and> FromHeader (Header r) = (Some mac, None)
      \<and> DecodeIdentifier (macId mac) = Inr ident
      \<longrightarrow> ExtractRateLimitKey FromHeader macId DecodeIdentifier tokenIDString ipString
              r remoteIP authenticated
            = ''token:'' @ tokenIDString ident)
   \<and> (\<not> (authenticated
          \<and> (\<exists>m i. FromHeader (Header r) = (Some m, None) \<and> DecodeIdentifier (macId m) = Inr i))
      \<longrightarrow> ExtractRateLimitKey FromHeader macId DecodeIdentifier tokenIDString ipString
              r remoteIP authenticated
            = ''ip:'' @ ipString (MaskIP remoteIP))
   \<and> (take 6 (ExtractRateLimitKey FromHeader macId DecodeIdentifier tokenIDString ipString
                r remoteIP authenticated) = ''token:''
      \<longleftrightarrow> authenticated
          \<and> (\<exists>m i. FromHeader (Header r) = (Some m, None) \<and> DecodeIdentifier (macId m) = Inr i))"
  by (auto simp: ExtractRateLimitKey_def Let_def split: prod.splits option.splits sum.splits)

text \<open>
  A request with an authorization header whose identifier decodes, authenticated and
  not authenticated, from the address 192.168.1.100.
\<close>

theorem ExtractRateLimitKey_cases_witness:
  "ExtractRateLimitKey
     (\<lambda>h. case h ''Authorization'' of None \<Rightarrow> (None, Some ''no header'')
           | Some v \<Rightarrow> (Some (1 :: nat), None))
     (\<lambda>m. [1, 2, 3]) (\<lambda>b. (Inr (7 :: nat) :: string + nat)) (\<lambda>i. ''07'') (\<lambda>a. ''192.168.1.0'')
     \<lparr>URL_Path = ''/api/test'', Header = [''Authorization'' \<mapsto> [''L402 abc:def'']]\<rparr>
     [192, 168, 1, 100] True = ''token:07''
   \<and> ExtractRateLimitKey
     (\<lambda>h. case h ''Authorization'' of None \<Rightarrow> (None, Some ''no header'')
           | Some v \<Rightarrow> (Some (1 :: nat), None))
     (\<lambda>m. [1, 2, 3]) (\<lambda>b. (Inr (7 :: nat) :: string + nat)) (\<lambda>i. ''07'') (\<lambda>a. ''192.168.1.0'')
     \<lparr>URL_Path = ''/api/test'', Header = [''Authorization'' \<mapsto> [''L402 abc:def'']]\<rparr>
     [192, 168, 1, 100] False = ''ip:192.168.1.0''"
proof -
  let ?F = "\<lambda>h :: string \<rightharpoonup> string list.
              case h ''Authorization'' of None \<Rightarrow> (None, Some ''no header'')
              | Some v \<Rightarrow> (Some (1 :: nat), None)"
  let ?r = "\<lparr>URL_Path = ''/api/test'', Header = [''Authorization'' \<mapsto> [''L402 abc:def'']]\<rparr>"
  have h: "?F (Header ?r) = (Some 1, None)"
    by simp
  have a: "ExtractRateLimitKey ?F (\<lambda>m. [1, 2, 3]) (\<lambda>b. (Inr (7 :: nat) :: string + nat))
             (\<lambda>i. ''07'') (\<lambda>a. ''192.168.1.0'') ?r [192, 168, 1, 100] True = ''token:07''"
    using h ExtractRateLimitKey_cases [of True ?F ?r 1 "\<lambda>b. (Inr (7 :: nat) :: string + nat)"
        "\<lambda>m. [1, 2, 3]" 7 "\<lambda>i. ''07''" "\<lambda>a. ''192.168.1.0''" "[192, 168, 1, 100]"]
    by simp
  have b: "ExtractRateLimitKey ?F (\<lambda>m. [1, 2, 3]) (\<lambda>b. (Inr (7 :: nat) :: string + nat))
             (\<lambda>i. ''07'') (\<lambda>a. ''192.168.1.0'') ?r [192, 168, 1, 100] False = ''ip:192.168.1.0''"
    using ExtractRateLimitKey_cases [of False ?F ?r 1 "\<lambda>b. (Inr (7 :: nat) :: string + nat)"
        "\<lambda>m. [1, 2, 3]" 7 "\<lambda>i. ''07''" "\<lambda>a. ''192.168.1.0''" "[192, 168, 1, 100]"]
    by simp
  show ?thesis
    using a b by (rule conjI)
qed

section \<open>Properties of the denial response\<close>

lemma Retry_After_header:
  "ResponseHeader (sendRateLimitResponse w r d) ''Retry-After'' = Some (Itoa \<lceil>Seconds d\<rceil>)"
  by (simp add: sendRateLimitResponse_def Let_def retrySeconds_def)

text \<open>
  Claim C7. In a denial response the header Retry-After is the decimal text of the
  advised wait rounded up to whole seconds, for the plain protocol and for the
  streaming-RPC protocol alike: the number is not below the wait and less than one
  second above it. A positive wait of at most a second gives 1, 500 ms gives 1 and
  1100 ms gives 2. The plain denial has the status 429; the streaming-RPC denial has
  the transport status 200 and the status 8 (resource exhausted) in its header.
\<close>

theorem RetryAfter_rounds_up:
  "ResponseHeader (sendRateLimitResponse w r d) ''Retry-After'' = Some (Itoa \<lceil>Seconds d\<rceil>)
   \<and> Seconds d \<le> of_int \<lceil>Seconds d\<rceil> \<and> of_int \<lceil>Seconds d\<rceil> < Seconds d + 1
   \<and> (0 < d \<and> d \<le> Second \<longrightarrow>
        ResponseHeader (sendRateLimitResponse w r d) ''Retry-After'' = Some ''1'')
   \<and> ResponseHeader (sendRateLimitResponse w r (500 * Millisecond)) ''Retry-After'' = Some ''1''
   \<and> ResponseHeader (sendRateLimitResponse w r (1100 * Millisecond)) ''Retry-After'' = Some ''2''
   \<and> (\<not> isGRPC r \<longrightarrow> Code (sendRateLimitResponse w r d) = 429)
   \<and> (isGRPC r \<longrightarrow> Code (sendRateLimitResponse w r d) = 200
        \<and> ResponseHeader (sendRateLimitResponse w r d) ''Grpc-Status'' = Some ''8'')"
proof -
  have a: "\<lceil>Seconds (500 * Millisecond)\<rceil> = 1" "\<lceil>Seconds (1100 * Millisecond)\<rceil> = 2"
    by (simp_all add: Millisecond_def Seconds_def ceiling_eq_iff)
  have b: "Itoa 1 = ''1''" "Itoa 2 = ''2''"
    by (simp_all add: Itoa_def digits.simps digit_def)
  have c: "0 < d \<and> d \<le> Second \<longrightarrow> \<lceil>Seconds d\<rceil> = 1"
    by (simp add: Second_def Seconds_def ceiling_eq_iff)
  have d: "Seconds d \<le> of_int \<lceil>Seconds d\<rceil>" "of_int \<lceil>Seconds d\<rceil> < Seconds d + 1"
    by linarith+
  have e: "\<not> isGRPC r \<longrightarrow> Code (sendRateLimitResponse w r d) = 429"
    by (simp add: sendRateLimitResponse_def Let_def StatusTooManyRequests_def)
  have f: "isGRPC r \<longrightarrow> Code (sendRateLimitResponse w r d) = 200
        \<and> ResponseHeader (sendRateLimitResponse w r d) ''Grpc-Status'' = Some ''8''"
    by (simp add: sendRateLimitResponse_def Let_def StatusOK_def)
  show ?thesis
    using c d e f by (simp add: Retry_After_header a b)
qed

text \<open>
  A wait of a quarter of a second, answered to a plain request and to a request with
  the content type application/grpc.
\<close>

theorem RetryAfter_rounds_up_witness:
  "(0 :: real) < 1 / 4 \<and> (1 / 4 :: real) \<le> Second
   \<and> \<not> isGRPC \<lparr>URL_Path = ''/api/test'', Header = Map.empty\<rparr>
   \<and> isGRPC \<lparr>URL_Path = ''/grpc.Service/Method'',
              Header = [''Content-Type'' \<mapsto> [''application/grpc'']]\<rparr>
   \<and> ResponseHeader (sendRateLimitResponse \<lparr>Code = 0, ResponseHeader = Map.empty, Body = []\<rparr>
        \<lparr>URL_Path = ''/api/test'', Header = Map.empty\<rparr> (1 / 4)) ''Retry-After'' = Some ''1''
   \<and> Code (sendRateLimitResponse \<lparr>Code = 0, ResponseHeader = Map.empty, Body = []\<rparr>
        \<lparr>URL_Path = ''/api/test'', Header = Map.empty\<rparr> (1 / 4)) = 429
   \<and> ResponseHeader (sendRateLimitResponse \<lparr>Code = 0, ResponseHeader = Map.empty, Body = []\<rparr>
        \<lparr>URL_Path = ''/grpc.Service/Method'',
         Header = [''Content-Type'' \<mapsto> [''application/grpc'']]\<rparr> (1 / 4)) ''Retry-After''
       = Some ''1''
   \<and> Code (sendRateLimitResponse \<lparr>Code = 0, ResponseHeader = Map.empty, Body = []\<rparr>
        \<lparr>URL_Path = ''/grpc.Service/Method'',
         Header = [''Content-Type'' \<mapsto> [''application/grpc'']]\<rparr> (1 / 4)) = 200"
proof -
  let ?w = "\<lparr>Code = 0, ResponseHeader = Map.empty, Body = []\<rparr>"
  let ?p = "\<lparr>URL_Path = ''/api/test'', Header = Map.empty\<rparr>"
  let ?g = "\<lparr>URL_Path = ''/grpc.Service/Method'',
             Header = [''Content-Type'' \<mapsto> [''application/grpc'']]\<rparr>"
  have h: "(0 :: real) < 1 / 4" "(1 / 4 :: real) \<le> Second"
    by (simp_all add: Second_def)
  have p: "\<not> isGRPC ?p"
    by (simp add: isGRPC_def Header_Get_def)
  have g: "isGRPC ?g"
    by (simp add: isGRPC_def Header_Get_def)
  note P = RetryAfter_rounds_up [of ?w ?p "1 / 4"]
  note G = RetryAfter_rounds_up [of ?w ?g "1 / 4"]
  have p1: "ResponseHeader (sendRateLimitResponse ?w ?p (1 / 4)) ''Retry-After'' = Some ''1''"
    using P h by blast
  have p2: "Code (sendRateLimitResponse ?w ?p (1 / 4)) = 429"
    using P p by blast
  have g1: "ResponseHeader (sendRateLimitResponse ?w ?g (1 / 4)) ''Retry-After'' = Some ''1''"
    using G h by blast
  have g2: "Code (sendRateLimitResponse ?w ?g (1 / 4)) = 200"
    using G g by blast
  show ?thesis
    using h p g p1 p2 g1 g2 by blast
qed

section \<open>Properties of the bucket cache\<close>

lemma capacity_Get [simp]: "capacity (snd (Get key c)) = capacity c"
  by (simp add: Get_def split: option.splits)

lemma capacity_Put [simp]: "capacity (snd (Put key v c)) = capacity c"
  by (simp add: Put_def Let_def)

lemma map_of_Some_filter_less:
  "map_of es key = Some v \<Longrightarrow> length (filter (\<lambda>e. fst e \<noteq> key) es) < length es"
  by (rule length_filter_less [of "(key, v)"]) (auto dest: map_of_SomeD)

lemma Len_Get: "Len (snd (Get key c)) \<le> Len c"
  using map_of_Some_filter_less [of "entries c" key]
  by (auto simp: Get_def Len_def split: option.splits simp: Suc_le_eq)

lemma Len_Put: "Len c \<le> capacity c \<Longrightarrow> Len (snd (Put key v c)) \<le> capacity c"
proof -
  assume a: "Len c \<le> capacity c"
  have "length (filter (\<lambda>e. fst e \<noteq> key) (entries c)) \<le> capacity c"
    using a length_filter_le [of "\<lambda>e. fst e \<noteq> key" "entries c"]
    unfolding Len_def by (rule_tac le_trans)
  then show ?thesis
    using a by (auto simp: Put_def Len_def Let_def)
qed

lemma cache_Reserve [simp]: "cache (snd (Reserve a now rl)) = cache rl"
  by (simp add: Reserve_def split: prod.splits)

lemma cache_Cancel [simp]: "cache (Cancel r rl) = cache rl"
  by (simp add: Cancel_def)

lemma cache_cancelReservations [simp]: "cache (cancelReservations rs rl) = cache rl"
  by (induction rs arbitrary: rl) (simp_all add: Let_def)

lemma cache_countAllowed [simp]: "cache (countAllowed rs rl) = cache rl"
  by (induction rs arbitrary: rl) (simp_all add: Let_def)

lemma cache_getOrCreateLimiter:
  "cache (snd (getOrCreateLimiter key c rl)) =
     (case fst (Get key (cache rl)) of
        Some a \<Rightarrow> snd (Get key (cache rl))
      | None \<Rightarrow> snd (Put key (length (limiters rl)) (snd (Get key (cache rl)))))"
  by (simp add: getOrCreateLimiter_def Let_def split: prod.splits option.splits)


lemma bounded_getOrCreateLimiter:
  assumes "bounded rl"
  shows "bounded (snd (getOrCreateLimiter key c rl))
         \<and> capacity (cache (snd (getOrCreateLimiter key c rl))) = capacity (cache rl)"
proof -
  have g: "Len (snd (Get key (cache rl))) \<le> capacity (cache rl)"
    using assms Len_Get [of key "cache rl"] by (simp add: bounded_def)
  then have "Len (snd (Put key (length (limiters rl)) (snd (Get key (cache rl)))))
             \<le> capacity (cache rl)"
    using Len_Put [of "snd (Get key (cache rl))" key "length (limiters rl)"] by simp
  with g show ?thesis
    by (simp add: bounded_def cache_getOrCreateLimiter split: option.splits)
qed

lemma bounded_collectReservations:
  "bounded rl \<Longrightarrow>
   bounded (snd (collectReservations cs path key now rl rs))
   \<and> capacity (cache (snd (collectReservations cs path key now rl rs))) = capacity (cache rl)"
proof (induction cs arbitrary: rl rs)
  case Nil
  then show ?case by simp
next
  case (Cons c cs)
  show ?case
  proof (cases "Matches c path")
    case False
    then show ?thesis using Cons by simp
  next
    case True
    obtain a rl1 where g: "getOrCreateLimiter (LimiterKey key (PathRegexp c)) c rl = (a, rl1)"
      by (cases "getOrCreateLimiter (LimiterKey key (PathRegexp c)) c rl")
    obtain r rl2 where v: "Reserve a now rl1 = (r, rl2)"
      by (cases "Reserve a now rl1")
    have b1: "bounded rl1" "capacity (cache rl1) = capacity (cache rl)"
      using bounded_getOrCreateLimiter [OF Cons.prems, of "LimiterKey key (PathRegexp c)" c] g
      by simp_all
    have c2: "cache rl2 = cache rl1"
      using cache_Reserve [of a now rl1] v by simp
    then have b2: "bounded rl2" "capacity (cache rl2) = capacity (cache rl)"
      using b1 by (simp_all add: bounded_def)
    show ?thesis
      using True g v Cons.IH [OF b2(1)] b2(2) by simp
  qed
qed

lemma bounded_Allow:
  assumes "bounded rl"
  shows "bounded (snd (Allow r key now rl))
         \<and> capacity (cache (snd (Allow r key now rl))) = capacity (cache rl)"
proof -
  obtain rs rl1 where c: "collectReservations (configs rl) (URL_Path r) key now rl [] = (rs, rl1)"
    by (cases "collectReservations (configs rl) (URL_Path r) key now rl []")
  have "bounded rl1 \<and> capacity (cache rl1) = capacity (cache rl)"
    using bounded_collectReservations [OF assms, of "configs rl" "URL_Path r" key now "[]"] c
    by simp
  then show ?thesis
    using c by (simp add: Allow_def Let_def bounded_def split: prod.splits)
qed

lemma snd_AllowCalls_Cons:
  "snd (AllowCalls ((r, key, now) # calls) rl) = snd (AllowCalls calls (snd (Allow r key now rl)))"
  by (simp add: Let_def split: prod.splits)

lemma bounded_AllowCalls:
  "bounded rl \<Longrightarrow>
   bounded (snd (AllowCalls calls rl))
   \<and> capacity (cache (snd (AllowCalls calls rl))) = capacity (cache rl)"
proof (induction calls arbitrary: rl)
  case Nil
  then show ?case by simp
next
  case (Cons call calls)
  obtain r key now where call: "call = (r, key, now)"
    by (cases call) auto
  have b: "bounded (snd (Allow r key now rl))"
    "capacity (cache (snd (Allow r key now rl))) = capacity (cache rl)"
    using bounded_Allow [OF Cons.prems] by simp_all
  show ?case
    using Cons.IH [OF b(1)] b(2) call
    by (simp only: snd_AllowCalls_Cons)
qed

lemma cache_NewRateLimiter:
  "cache (NewRateLimiter name cfgs opts)
   = NewCache (uint64 (maxSize (NewRateLimiter name cfgs opts)))"
  by (simp add: NewRateLimiter_def Let_def)


lemma filter_absent: "k \<notin> fst ` set es \<Longrightarrow> filter (\<lambda>e. fst e \<noteq> k) es = es"
  by (induction es) auto

lemma map_of_absent: "k \<notin> fst ` set es \<Longrightarrow> map_of es k = None"
  by (simp add: map_of_eq_None_iff)

lemma entries_getOrCreateLimiter_miss:
  assumes "k \<notin> fst ` set (entries (cache rl))"
  shows "entries (cache (snd (getOrCreateLimiter k c rl))) =
           (if capacity (cache rl) < 1 then entries (cache rl)
            else if capacity (cache rl) \<le> Len (cache rl)
              then (k, length (limiters rl)) # butlast (entries (cache rl))
            else (k, length (limiters rl)) # entries (cache rl))"
  using assms
  by (simp add: cache_getOrCreateLimiter Get_def Put_def Let_def Len_def
      map_of_absent filter_absent)

lemma entries_getOrCreateLimiter_hit:
  assumes "map_of (entries (cache rl)) k = Some a"
  shows "entries (cache (snd (getOrCreateLimiter k c rl))) =
           (k, a) # filter (\<lambda>e. fst e \<noteq> k) (entries (cache rl))"
  using assms by (simp add: cache_getOrCreateLimiter Get_def)

lemma take_append_take: "take n (xs @ take n ys) = take n (xs @ ys)"
  by (simp add: min_def)

lemma butlast_take_full: "length xs = n \<Longrightarrow> 0 < n \<Longrightarrow> x # butlast xs = take n (x # xs)"
  by (cases n) (simp_all add: butlast_conv_take)

lemma keys_getOrCreateLimiter_miss:
  assumes "k \<notin> fst ` set (entries (cache rl))" and "bounded rl"
  shows "map fst (entries (cache (snd (getOrCreateLimiter k c rl))))
         = take (capacity (cache rl)) (k # map fst (entries (cache rl)))"
proof -
  let ?es = "entries (cache rl)" and ?C = "capacity (cache rl)"
  have le: "length ?es \<le> ?C"
    using assms(2) by (simp add: bounded_def Len_def)
  show ?thesis
  proof (cases "?C < 1")
    case True
    then show ?thesis using le assms(1) by (simp add: entries_getOrCreateLimiter_miss)
  next
    case False
    show ?thesis
    proof (cases "?C \<le> length ?es")
      case True
      then have eq: "length (map fst ?es) = ?C" using le by simp
      have "map fst ((k, length (limiters rl)) # butlast ?es) = k # butlast (map fst ?es)"
        by (simp add: map_butlast)
      also have "\<dots> = take ?C (k # map fst ?es)"
        using butlast_take_full [OF eq] False by simp
      finally show ?thesis
        using True False assms(1) by (simp add: entries_getOrCreateLimiter_miss Len_def)
    next
      case False
      then show ?thesis
        using \<open>\<not> ?C < 1\<close> assms(1) by (simp add: entries_getOrCreateLimiter_miss Len_def)
    qed
  qed
qed

lemma keys_getOrCreateLimiters:
  assumes "distinct (ks @ map fst (entries (cache rl)))" and "bounded rl"
  shows "map fst (entries (cache (getOrCreateLimiters ks c rl)))
           = take (capacity (cache rl)) (rev ks @ map fst (entries (cache rl)))"
  using assms
proof (induction ks arbitrary: rl)
  case Nil
  then show ?case by (simp add: bounded_def Len_def)
next
  case (Cons k ks)
  let ?rl1 = "snd (getOrCreateLimiter k c rl)"
  let ?C = "capacity (cache rl)"
  have absent: "k \<notin> fst ` set (entries (cache rl))"
    using Cons.prems(1) by auto
  have keys1: "map fst (entries (cache ?rl1)) = take ?C (k # map fst (entries (cache rl)))"
    by (rule keys_getOrCreateLimiter_miss [OF absent Cons.prems(2)])
  have b1: "bounded ?rl1" and c1: "capacity (cache ?rl1) = ?C"
    using bounded_getOrCreateLimiter [OF Cons.prems(2), of k c] by simp_all
  have "distinct (k # map fst (entries (cache rl)))"
    using Cons.prems(1) by auto
  then have d1: "distinct (take ?C (k # map fst (entries (cache rl))))"
    by (rule distinct_take)
  have "set (take ?C (k # map fst (entries (cache rl)))) \<subseteq> set (k # map fst (entries (cache rl)))"
    by (rule set_take_subset)
  then have "set ks \<inter> set (take ?C (k # map fst (entries (cache rl)))) = {}"
    using Cons.prems(1) by auto
  then have dist1: "distinct (ks @ map fst (entries (cache ?rl1)))"
    using d1 Cons.prems(1) by (simp add: keys1)
  have "map fst (entries (cache (getOrCreateLimiters ks c ?rl1)))
        = take ?C (rev ks @ take ?C (k # map fst (entries (cache rl))))"
    using Cons.IH [OF dist1 b1] by (simp add: c1 keys1)
  then show ?case
    by (simp add: take_append_take)
qed


lemma configs_getOrCreateLimiter [simp]: "configs (snd (getOrCreateLimiter k c rl)) = configs rl"
  by (simp add: getOrCreateLimiter_def Let_def split: prod.splits option.splits)

lemma configs_Reserve [simp]: "configs (snd (Reserve a now rl)) = configs rl"
  by (simp add: Reserve_def split: prod.splits)

lemma configs_cancelReservations [simp]: "configs (cancelReservations rs rl) = configs rl"
  by (induction rs arbitrary: rl) (simp_all add: Let_def Cancel_def)

lemma configs_countAllowed [simp]: "configs (countAllowed rs rl) = configs rl"
  by (induction rs arbitrary: rl) (simp_all add: Let_def)

lemma configs_collectReservations [simp]:
  "configs (snd (collectReservations cs path key now rl rs)) = configs rl"
proof (induction cs arbitrary: rl rs)
  case Nil
  then show ?case by simp
next
  case (Cons c cs)
  show ?case
  proof (cases "Matches c path")
    case False
    then show ?thesis using Cons by simp
  next
    case True
    obtain a rl1 where g: "getOrCreateLimiter (LimiterKey key (PathRegexp c)) c rl = (a, rl1)"
      by (cases "getOrCreateLimiter (LimiterKey key (PathRegexp c)) c rl")
    obtain r rl2 where v: "Reserve a now rl1 = (r, rl2)"
      by (cases "Reserve a now rl1")
    have "configs rl1 = configs rl"
      using configs_getOrCreateLimiter [of "LimiterKey key (PathRegexp c)" c rl] g by simp
    moreover have "configs rl2 = configs rl1"
      using configs_Reserve [of a now rl1] v by simp
    ultimately show ?thesis
      using True g v Cons.IH [of rl2] by simp
  qed
qed

lemma configs_Allow [simp]: "configs (snd (Allow r key now rl)) = configs rl"
proof -
  obtain rs rl1 where c: "collectReservations (configs rl) (URL_Path r) key now rl [] = (rs, rl1)"
    by (cases "collectReservations (configs rl) (URL_Path r) key now rl []")
  have "configs rl1 = configs rl"
    using configs_collectReservations [of "configs rl" "URL_Path r" key now rl "[]"] c by simp
  then show ?thesis
    using c by (simp add: Allow_def Let_def split: prod.splits)
qed

lemma cache_Allow_single:
  assumes "configs rl = [c]" and "Matches c (URL_Path r)"
  shows "cache (snd (Allow r key now rl))
         = cache (snd (getOrCreateLimiter (LimiterKey key (PathRegexp c)) c rl))"
proof -
  obtain a rl1 where g: "getOrCreateLimiter (LimiterKey key (PathRegexp c)) c rl = (a, rl1)"
    by (cases "getOrCreateLimiter (LimiterKey key (PathRegexp c)) c rl")
  obtain v rl2 where v: "Reserve a now rl1 = (v, rl2)"
    by (cases "Reserve a now rl1")
  have "cache rl2 = cache rl1"
    using cache_Reserve [of a now rl1] v by simp
  then show ?thesis
    using assms g v by (simp add: Allow_def Let_def split: prod.splits)
qed

lemma keys_AllowCalls_single:
  assumes "configs rl = [c]" and "compiledPathRegexp c = None"
    and "distinct (map (\<lambda>(r, k, t). k) calls)"
    and "entries (cache rl) = []"
  shows "map fst (entries (cache (snd (AllowCalls calls rl))))
           = take (capacity (cache rl))
               (rev (map (\<lambda>(r, k, t). LimiterKey k (PathRegexp c)) calls))"
proof -
  define f :: "Request \<times> string \<times> real \<Rightarrow> limiterKey"
    where "f = (\<lambda>(r, k, t). LimiterKey k (PathRegexp c))"
  have gen: "configs rl = [c] \<Longrightarrow> bounded rl \<Longrightarrow>
      distinct (map f calls @ map fst (entries (cache rl))) \<Longrightarrow>
      map fst (entries (cache (snd (AllowCalls calls rl))))
        = take (capacity (cache rl)) (rev (map f calls) @ map fst (entries (cache rl)))" for rl
  proof (induction calls arbitrary: rl)
    case Nil
    then show ?case by (simp add: bounded_def Len_def)
  next
    case (Cons call calls)
    obtain r k t where call: "call = (r, k, t)"
      by (cases call) auto
    let ?rl1 = "snd (Allow r k t rl)"
    let ?C = "capacity (cache rl)"
    have fk: "f call = LimiterKey k (PathRegexp c)"
      by (simp add: f_def call)
    have m: "Matches c (URL_Path r)"
      using assms(2) by (simp add: Matches_def)
    have ca: "cache ?rl1 = cache (snd (getOrCreateLimiter (f call) c rl))"
      unfolding fk by (rule cache_Allow_single [OF Cons.prems(1) m])
    have absent: "f call \<notin> fst ` set (entries (cache rl))"
      using Cons.prems(3) by auto
    have keys1: "map fst (entries (cache ?rl1)) = take ?C (f call # map fst (entries (cache rl)))"
      using keys_getOrCreateLimiter_miss [OF absent Cons.prems(2), of c] ca by simp
    have b1: "bounded ?rl1" and c1: "capacity (cache ?rl1) = ?C"
      using bounded_Allow [OF Cons.prems(2), of r k t] by simp_all
    have cf1: "configs ?rl1 = [c]"
      using Cons.prems(1) by simp
    have "distinct (f call # map fst (entries (cache rl)))"
      using Cons.prems(3) by auto
    then have d1: "distinct (take ?C (f call # map fst (entries (cache rl))))"
      by (rule distinct_take)
    have "set (take ?C (f call # map fst (entries (cache rl))))
          \<subseteq> set (f call # map fst (entries (cache rl)))"
      by (rule set_take_subset)
    moreover have "set (map f calls) \<inter> set (f call # map fst (entries (cache rl))) = {}"
      using Cons.prems(3) by (simp del: set_map)
    ultimately have "set (map f calls) \<inter> set (take ?C (f call # map fst (entries (cache rl)))) = {}"
      by blast
    then have dist1: "distinct (map f calls @ map fst (entries (cache ?rl1)))"
      using d1 Cons.prems(3) by (simp add: keys1)
    have "map fst (entries (cache (snd (AllowCalls calls ?rl1))))
          = take ?C (rev (map f calls) @ take ?C (f call # map fst (entries (cache rl))))"
      using Cons.IH [OF cf1 b1 dist1] by (simp add: c1 keys1)
    then show ?case
      by (simp only: call snd_AllowCalls_Cons) (simp add: take_append_take flip: call)
  qed
  have inj: "inj (\<lambda>k. LimiterKey k (PathRegexp c))"
    by (simp add: inj_def)
  have "map f calls = map (\<lambda>k. LimiterKey k (PathRegexp c)) (map (\<lambda>(r, k, t). k) calls)"
    by (simp add: f_def comp_def case_prod_unfold)
  then have "distinct (map f calls)"
    using assms(3) inj by (simp add: distinct_map inj_on_def)
  then show ?thesis
    using gen [of rl] assms(1,4) by (simp add: bounded_def Len_def f_def)
qed

text \<open>
  Claim C4. The cache of a limiter never holds more entries than its capacity, which
  is the configured maximum (10000 by default). The bound holds at the start, is kept
  by every lookup and every call of \<open>Allow\<close>, and so holds after any sequence of
  calls. Inserting more distinct keys than the capacity \<open>C\<close> into an empty cache,
  by lookups or by calls of \<open>Allow\<close> under a rule that matches every path, leaves
  exactly \<open>C\<close> entries: the last \<open>C\<close> keys inserted, the most recent first. A lookup
  of an absent key in a full cache inserts it at the front and evicts exactly the
  last, least recently used, entry; a lookup of a resident key moves that entry to
  the front and keeps the order of the others.
\<close>

theorem cache_never_exceeds_capacity:
  "maxSize (NewRateLimiter name cfgs []) = 10000
   \<and> capacity (cache (NewRateLimiter name cfgs [])) = 10000
   \<and> (0 \<le> n \<and> n < 2 ^ 63 \<longrightarrow>
        capacity (cache (NewRateLimiter name cfgs [WithMaxCacheSize n])) = nat n)
   \<and> Size (snd (AllowCalls calls (NewRateLimiter name cfgs opts)))
        \<le> capacity (cache (NewRateLimiter name cfgs opts))
   \<and> (bounded rl \<longrightarrow>
        bounded (snd (Allow r key now rl)) \<and> bounded (snd (getOrCreateLimiter k c rl)))
   \<and> (distinct ks \<and> C < length ks \<and> cache rl = NewCache C \<longrightarrow>
        Size (getOrCreateLimiters ks c rl) = C
        \<and> map fst (entries (cache (getOrCreateLimiters ks c rl))) = take C (rev ks))
   \<and> (configs rl = [c] \<and> compiledPathRegexp c = None \<and> distinct (map (\<lambda>(r, k, t). k) calls)
        \<and> C < length calls \<and> cache rl = NewCache C \<longrightarrow>
        Size (snd (AllowCalls calls rl)) = C)
   \<and> (k \<notin> fst ` set (entries (cache rl)) \<and> Size rl = capacity (cache rl)
        \<and> 0 < capacity (cache rl) \<longrightarrow>
        entries (cache (snd (getOrCreateLimiter k c rl)))
          = (k, length (limiters rl)) # butlast (entries (cache rl)))
   \<and> (map_of (entries (cache rl)) k = Some a \<longrightarrow>
        entries (cache (snd (getOrCreateLimiter k c rl)))
          = (k, a) # filter (\<lambda>e. fst e \<noteq> k) (entries (cache rl)))"
proof -
  have p1: "maxSize (NewRateLimiter name cfgs []) = 10000"
    "capacity (cache (NewRateLimiter name cfgs [])) = 10000"
    by (simp_all add: NewRateLimiter_def DefaultMaxCacheSize_def NewCache_def uint64_def)
  have p2: "0 \<le> n \<and> n < 2 ^ 63 \<longrightarrow>
        capacity (cache (NewRateLimiter name cfgs [WithMaxCacheSize n])) = nat n"
    by (simp add: NewRateLimiter_def WithMaxCacheSize_def NewCache_def uint64_def)
  have b0: "bounded (NewRateLimiter name cfgs opts)"
    by (simp add: bounded_def cache_NewRateLimiter NewCache_def Len_def)
  have p3: "Size (snd (AllowCalls calls (NewRateLimiter name cfgs opts)))
        \<le> capacity (cache (NewRateLimiter name cfgs opts))"
    using bounded_AllowCalls [OF b0, of calls] by (simp add: bounded_def Size_def)
  have p4: "bounded rl \<longrightarrow>
        bounded (snd (Allow r key now rl)) \<and> bounded (snd (getOrCreateLimiter k c rl))"
    using bounded_Allow [of rl r key now] bounded_getOrCreateLimiter [of rl k c] by blast
  have p5: "distinct ks \<and> C < length ks \<and> cache rl = NewCache C \<longrightarrow>
        Size (getOrCreateLimiters ks c rl) = C
        \<and> map fst (entries (cache (getOrCreateLimiters ks c rl))) = take C (rev ks)"
  proof (intro impI, elim conjE)
    assume h: "distinct ks" "C < length ks" "cache rl = NewCache C"
    have "map fst (entries (cache (getOrCreateLimiters ks c rl))) = take C (rev ks)"
      using keys_getOrCreateLimiters [of ks rl c] h(1,3)
      by (simp add: bounded_def NewCache_def Len_def)
    moreover from this have "length (entries (cache (getOrCreateLimiters ks c rl))) = C"
      using h(2) by (metis length_map length_rev length_take min.absorb4)
    ultimately show "Size (getOrCreateLimiters ks c rl) = C
        \<and> map fst (entries (cache (getOrCreateLimiters ks c rl))) = take C (rev ks)"
      by (simp add: Size_def Len_def)
  qed
  have p6: "configs rl = [c] \<and> compiledPathRegexp c = None \<and> distinct (map (\<lambda>(r, k, t). k) calls)
        \<and> C < length calls \<and> cache rl = NewCache C \<longrightarrow>
        Size (snd (AllowCalls calls rl)) = C"
  proof (intro impI, elim conjE)
    assume h: "configs rl = [c]" "compiledPathRegexp c = None"
      "distinct (map (\<lambda>(r, k, t). k) calls)" "C < length calls" "cache rl = NewCache C"
    have "map fst (entries (cache (snd (AllowCalls calls rl))))
          = take C (rev (map (\<lambda>(r, k, t). LimiterKey k (PathRegexp c)) calls))"
      using keys_AllowCalls_single [OF h(1,2,3)] h(5) by (simp add: NewCache_def)
    then have "length (entries (cache (snd (AllowCalls calls rl)))) = C"
      using h(4) by (metis length_map length_rev length_take min.absorb4)
    then show "Size (snd (AllowCalls calls rl)) = C"
      by (simp add: Size_def Len_def)
  qed
  have p7: "k \<notin> fst ` set (entries (cache rl)) \<and> Size rl = capacity (cache rl)
        \<and> 0 < capacity (cache rl) \<longrightarrow>
        entries (cache (snd (getOrCreateLimiter k c rl)))
          = (k, length (limiters rl)) # butlast (entries (cache rl))"
    by (simp add: entries_getOrCreateLimiter_miss Size_def)
  have p8: "map_of (entries (cache rl)) k = Some a \<longrightarrow>
        entries (cache (snd (getOrCreateLimiter k c rl)))
          = (k, a) # filter (\<lambda>e. fst e \<noteq> k) (entries (cache rl))"
    by (simp add: entries_getOrCreateLimiter_hit)
  show ?thesis
    using p1 p2 p3 p4 p5 p6 p7 p8 by blast
qed


text \<open>
  A limiter of capacity 2 with one rule for every path, and three clients: the cache
  ends with the two clients seen last; in the full cache of the first two clients a
  new key evicts the oldest one, and a lookup of the oldest one moves it to the front.
\<close>

theorem cache_never_exceeds_capacity_witness:
  "bounded (NewRateLimiter ''svc''
      [\<lparr>PathRegexp = [], Requests = 100, Per = 1, Burst = 100, compiledPathRegexp = None\<rparr>]
      [WithMaxCacheSize 2])
   \<and> capacity (cache (NewRateLimiter ''svc''
      [\<lparr>PathRegexp = [], Requests = 100, Per = 1, Burst = 100, compiledPathRegexp = None\<rparr>]
      [WithMaxCacheSize 2])) = 2
   \<and> Size (snd (AllowCalls
        [(\<lparr>URL_Path = ''/api/test'', Header = Map.empty\<rparr>, ''key-0'', 0),
         (\<lparr>URL_Path = ''/api/test'', Header = Map.empty\<rparr>, ''key-1'', 0),
         (\<lparr>URL_Path = ''/api/test'', Header = Map.empty\<rparr>, ''key-2'', 0)]
        (NewRateLimiter ''svc''
          [\<lparr>PathRegexp = [], Requests = 100, Per = 1, Burst = 100, compiledPathRegexp = None\<rparr>]
          [WithMaxCacheSize 2]))) = 2
   \<and> map fst (entries (cache (getOrCreateLimiters
        [LimiterKey ''key-0'' [], LimiterKey ''key-1'' [], LimiterKey ''key-2'' []]
        \<lparr>PathRegexp = [], Requests = 100, Per = 1, Burst = 100, compiledPathRegexp = None\<rparr>
        (NewRateLimiter ''svc''
          [\<lparr>PathRegexp = [], Requests = 100, Per = 1, Burst = 100, compiledPathRegexp = None\<rparr>]
          [WithMaxCacheSize 2]))))
       = [LimiterKey ''key-2'' [], LimiterKey ''key-1'' []]
   \<and> entries (cache (snd (getOrCreateLimiter (LimiterKey ''key-2'' [])
        \<lparr>PathRegexp = [], Requests = 100, Per = 1, Burst = 100, compiledPathRegexp = None\<rparr>
        (getOrCreateLimiters [LimiterKey ''key-0'' [], LimiterKey ''key-1'' []]
          \<lparr>PathRegexp = [], Requests = 100, Per = 1, Burst = 100, compiledPathRegexp = None\<rparr>
          (NewRateLimiter ''svc''
            [\<lparr>PathRegexp = [], Requests = 100, Per = 1, Burst = 100, compiledPathRegexp = None\<rparr>]
            [WithMaxCacheSize 2])))))
       = [(LimiterKey ''key-2'' [], 2), (LimiterKey ''key-1'' [], 1)]
   \<and> entries (cache (snd (getOrCreateLimiter (LimiterKey ''key-0'' [])
        \<lparr>PathRegexp = [], Requests = 100, Per = 1, Burst = 100, compiledPathRegexp = None\<rparr>
        (getOrCreateLimiters [LimiterKey ''key-0'' [], LimiterKey ''key-1'' []]
          \<lparr>PathRegexp = [], Requests = 100, Per = 1, Burst = 100, compiledPathRegexp = None\<rparr>
          (NewRateLimiter ''svc''
            [\<lparr>PathRegexp = [], Requests = 100, Per = 1, Burst = 100, compiledPathRegexp = None\<rparr>]
            [WithMaxCacheSize 2])))))
       = [(LimiterKey ''key-0'' [], 0), (LimiterKey ''key-1'' [], 1)]"
proof -
  let ?c = "\<lparr>PathRegexp = [], Requests = 100, Per = 1, Burst = 100, compiledPathRegexp = None\<rparr>"
  let ?rl0 = "NewRateLimiter ''svc'' [?c] [WithMaxCacheSize 2]"
  let ?q = "\<lparr>URL_Path = ''/api/test'', Header = Map.empty\<rparr>"
  let ?calls = "[(?q, ''key-0'', 0 :: real), (?q, ''key-1'', 0), (?q, ''key-2'', 0)]"
  let ?ks = "[LimiterKey ''key-0'' [], LimiterKey ''key-1'' [], LimiterKey ''key-2'' []]"
  let ?rl2 = "getOrCreateLimiters [LimiterKey ''key-0'' [], LimiterKey ''key-1'' []] ?c ?rl0"
  have c0: "cache ?rl0 = NewCache 2" "configs ?rl0 = [?c]"
    by (simp_all add: NewRateLimiter_def WithMaxCacheSize_def uint64_def)
  have l0: "limiters ?rl0 = []"
    by (simp add: NewRateLimiter_def WithMaxCacheSize_def)
  have c2: "cache ?rl2 = \<lparr>capacity = 2,
              entries = [(LimiterKey ''key-1'' [], 1), (LimiterKey ''key-0'' [], 0)]\<rparr>"
    by (simp add: cache_getOrCreateLimiter c0 l0 NewCache_def Get_def Put_def Let_def
        getOrCreateLimiter_def)
  have l2: "length (limiters ?rl2) = 2"
    by (simp add: c0 l0 NewCache_def Get_def Put_def Let_def getOrCreateLimiter_def)
  note T1 = cache_never_exceeds_capacity
    [of "''svc''" "[?c]" 2 ?calls "[WithMaxCacheSize 2]" ?rl0 ?q "''key-0''" 0
        "LimiterKey ''key-0'' []" ?c ?ks 2 0]
  note T2 = cache_never_exceeds_capacity
    [of "''svc''" "[?c]" 2 ?calls "[WithMaxCacheSize 2]" ?rl2 ?q "''key-0''" 0
        "LimiterKey ''key-2'' []" ?c ?ks 2 0]
  note T3 = cache_never_exceeds_capacity
    [of "''svc''" "[?c]" 2 ?calls "[WithMaxCacheSize 2]" ?rl2 ?q "''key-0''" 0
        "LimiterKey ''key-0'' []" ?c ?ks 2 0]
  have w1: "bounded ?rl0"
    by (simp add: bounded_def c0 NewCache_def Len_def)
  have w2: "capacity (cache ?rl0) = 2"
    using T1 by simp
  have w3: "Size (snd (AllowCalls ?calls ?rl0)) = 2"
  proof -
    have "configs ?rl0 = [?c] \<and> compiledPathRegexp ?c = None
          \<and> distinct (map (\<lambda>(r, k, t). k) ?calls) \<and> 2 < length ?calls \<and> cache ?rl0 = NewCache 2"
      by (simp add: c0)
    then show ?thesis using T1 by blast
  qed
  have w4: "map fst (entries (cache (getOrCreateLimiters ?ks ?c ?rl0)))
            = [LimiterKey ''key-2'' [], LimiterKey ''key-1'' []]"
  proof -
    have "distinct ?ks \<and> 2 < length ?ks \<and> cache ?rl0 = NewCache 2"
      by (simp add: c0)
    then have "map fst (entries (cache (getOrCreateLimiters ?ks ?c ?rl0))) = take 2 (rev ?ks)"
      using T1 by blast
    then show ?thesis by (simp add: numeral_2_eq_2)
  qed
  have w5: "entries (cache (snd (getOrCreateLimiter (LimiterKey ''key-2'' []) ?c ?rl2)))
            = [(LimiterKey ''key-2'' [], 2), (LimiterKey ''key-1'' [], 1)]"
  proof -
    have "LimiterKey ''key-2'' [] \<notin> fst ` set (entries (cache ?rl2))
          \<and> Size ?rl2 = capacity (cache ?rl2) \<and> 0 < capacity (cache ?rl2)"
      by (simp add: c2 Size_def Len_def del: getOrCreateLimiters.simps)
    then have "entries (cache (snd (getOrCreateLimiter (LimiterKey ''key-2'' []) ?c ?rl2)))
               = (LimiterKey ''key-2'' [], length (limiters ?rl2)) # butlast (entries (cache ?rl2))"
      using T2 by blast
    then show ?thesis by (simp add: c2 l2 del: getOrCreateLimiters.simps)
  qed
  have w6: "entries (cache (snd (getOrCreateLimiter (LimiterKey ''key-0'' []) ?c ?rl2)))
            = [(LimiterKey ''key-0'' [], 0), (LimiterKey ''key-1'' [], 1)]"
  proof -
    have "map_of (entries (cache ?rl2)) (LimiterKey ''key-0'' []) = Some 0"
      by (simp add: c2 del: getOrCreateLimiters.simps)
    then have "entries (cache (snd (getOrCreateLimiter (LimiterKey ''key-0'' []) ?c ?rl2)))
               = (LimiterKey ''key-0'' [], 0)
                 # filter (\<lambda>e. fst e \<noteq> LimiterKey ''key-0'' []) (entries (cache ?rl2))"
      using T3 by blast
    then show ?thesis by (simp add: c2 del: getOrCreateLimiters.simps)
  qed
  show ?thesis
    using w1 w2 w3 w4 w5 w6 by blast
qed

section \<open>The scan of the reservations\<close>

lemma checkReservations_notOK:
  "\<exists>rr \<in> set rs. \<not> OK (reservation rr) \<Longrightarrow> checkReservations rs m b = (False, Second)"
  by (induction rs arbitrary: m b) (auto simp: Let_def)

lemma checkReservations_allOK:
  "\<forall>rr \<in> set rs. OK (reservation rr) \<Longrightarrow>
   checkReservations rs m b
     = (b \<and> (\<forall>rr \<in> set rs. \<not> 0 < Delay (reservation rr)),
        Max (set (m # map contribution (filter denying rs))))"
proof (induction rs arbitrary: m b)
  case Nil
  then show ?case by simp
next
  case (Cons rr rs)
  have ok: "OK (reservation rr)" and oks: "\<forall>rr \<in> set rs. OK (reservation rr)"
    using Cons.prems by simp_all
  let ?d = "Delay (reservation rr)"
  let ?S = "set (map contribution (filter denying rs))"
  show ?case
  proof (cases "0 < ?d")
    case True
    have dn: "denying rr" "contribution rr = ?d"
      using True ok by (simp_all add: denying_def contribution_def)
    have step: "checkReservations (rr # rs) m b = checkReservations rs (max m ?d) False"
      using True ok by (simp add: Let_def max_def)
    have "Max (insert (max m ?d) ?S) = Max (insert m (insert ?d ?S))"
      by (cases "?S = {}") (simp_all add: max.assoc)
    then have "Max (set (max m ?d # map contribution (filter denying rs)))
               = Max (set (m # map contribution (filter denying (rr # rs))))"
      using dn by simp
    then show ?thesis
      using True Cons.IH [OF oks, of "max m ?d" False] unfolding step by auto
  next
    case False
    have dn: "\<not> denying rr"
      using False ok by (simp add: denying_def)
    have step: "checkReservations (rr # rs) m b = checkReservations rs m b"
      using False ok by (simp add: Let_def)
    show ?thesis
      using False dn Cons.IH [OF oks, of m b] unfolding step by auto
  qed
qed

lemma Max_insert_zero:
  assumes "finite S" and "S \<noteq> {}" and "\<forall>x \<in> S. (0 :: real) < x"
  shows "Max (insert 0 S) = Max S"
proof -
  obtain x where x: "x \<in> S" using assms(2) by blast
  then have "0 < x" "x \<le> Max S"
    using assms by simp_all
  then have "0 \<le> Max S" by linarith
  then show ?thesis
    using assms by (simp add: max_def)
qed

lemma checkReservations_denied:
  assumes "checkReservations rs 0 True = (False, w)"
  shows "w = (if \<exists>rr \<in> set rs. \<not> OK (reservation rr) then Second else maxDenyingDelay rs)"
proof (cases "\<exists>rr \<in> set rs. \<not> OK (reservation rr)")
  case True
  then show ?thesis
    using assms checkReservations_notOK [OF True, of 0 True] by simp
next
  case False
  then have oks: "\<forall>rr \<in> set rs. OK (reservation rr)" by simp
  let ?S = "set (map contribution (filter denying rs))"
  have c: "checkReservations rs 0 True
           = (\<forall>rr \<in> set rs. \<not> 0 < Delay (reservation rr),
              Max (set (0 # map contribution (filter denying rs))))"
    using checkReservations_allOK [OF oks, of 0 True] by simp
  with assms obtain rr where rr: "rr \<in> set rs" "0 < Delay (reservation rr)"
    by auto
  then have "denying rr" by (simp add: denying_def)
  then have "contribution rr \<in> ?S"
    using rr(1) by simp
  then have ne: "?S \<noteq> {}" by (metis empty_iff)
  have pos: "\<forall>x \<in> ?S. 0 < x"
  proof
    fix x assume "x \<in> ?S"
    then obtain q where q: "q \<in> set rs" "denying q" "x = contribution q" by auto
    then show "0 < x" using oks by (simp add: denying_def contribution_def)
  qed
  have "Max (insert 0 ?S) = Max ?S"
    by (rule Max_insert_zero [OF _ ne pos]) simp
  then have "Max (set (0 # map contribution (filter denying rs))) = maxDenyingDelay rs"
    by (simp add: maxDenyingDelay_def)
  then show ?thesis
    using c assms False by simp
qed

lemma Allow_denied_check:
  assumes "Allow r key now rl = ((False, w), rl')"
  shows "checkReservations (fst (collectReservations (configs rl) (URL_Path r) key now rl [])) 0 True
         = (False, w)"
  using assms
  by (auto simp: Allow_def Let_def split: prod.splits if_splits)

section \<open>The store of limiters during a call\<close>


lemma fst_reserve:
  "fst (reserve now a l) = l\<lparr>availableTokens := credited now l - 1, lastUpdateTime := now\<rparr>"
  by (simp add: reserve_def Let_def)

lemma committedDebit_reserve [simp]: "committedDebit (snd (reserve now a l)) = 1"
  by (simp add: reserve_def Let_def)

lemma limiter_reserve [simp]: "limiter (snd (reserve now a l)) = a"
  by (simp add: reserve_def Let_def)




lemma limiters_getOrCreateLimiter:
  "limiters (snd (getOrCreateLimiter k c rl)) =
     (case map_of (entries (cache rl)) k of
        Some a \<Rightarrow> limiters rl
      | None \<Rightarrow> limiters rl @ [NewLimiter (Rate c) (EffectiveBurst c)])"
  by (simp add: getOrCreateLimiter_def Get_def Let_def split: prod.splits option.splits)

lemma fst_getOrCreateLimiter:
  "fst (getOrCreateLimiter k c rl) =
     (case map_of (entries (cache rl)) k of Some a \<Rightarrow> a | None \<Rightarrow> length (limiters rl))"
  by (simp add: getOrCreateLimiter_def Get_def Let_def split: prod.splits option.splits)

lemma limiters_Reserve:
  "limiters (snd (Reserve a now rl)) = (limiters rl)[a := fst (reserve now a (limiters rl ! a))]"
  by (simp add: Reserve_def split: prod.splits)

lemma fst_Reserve: "fst (Reserve a now rl) = snd (reserve now a (limiters rl ! a))"
  by (simp add: Reserve_def split: prod.splits)

lemma limiters_countAllowed [simp]: "limiters (countAllowed rs rl) = limiters rl"
  by (induction rs arbitrary: rl) (simp_all add: Let_def)


lemma wellFormed_iff:
  "wellFormed rl \<longleftrightarrow> (\<forall>e \<in> set (entries (cache rl)). snd e < length (limiters rl))"
  by (simp add: wellFormed_def list_all_iff)

lemma set_entries_Get: "set (entries (snd (Get k c))) \<subseteq> set (entries c)"
  by (auto simp: Get_def split: option.splits dest: map_of_SomeD)

lemma set_entries_Put: "set (entries (snd (Put k v c))) \<subseteq> insert (k, v) (set (entries c))"
  by (auto simp: Put_def Let_def dest: in_set_butlastD)

lemma fst_Get: "fst (Get k c) = map_of (entries c) k"
  by (simp add: Get_def split: option.splits)


lemma wellFormed_Reserve: "wellFormed rl \<Longrightarrow> wellFormed (snd (Reserve a now rl))"
  by (simp add: wellFormed_iff limiters_Reserve)

lemma length_limiters_getOrCreateLimiter:
  "length (limiters rl) \<le> length (limiters (snd (getOrCreateLimiter k c rl)))"
  by (simp add: limiters_getOrCreateLimiter split: option.splits)



lemma length_limiters_cancelReservations [simp]:
  "length (limiters (cancelReservations rs rl)) = length (limiters rl)"
  by (induction rs arbitrary: rl) (simp_all add: Let_def Cancel_def)




lemma credited_full:
  "availableTokens l = of_int (burst l) \<Longrightarrow> credited now l = of_int (burst l)"
  by (simp add: credited_def)





text \<open>The definitions that a run on a concrete state unfolds.\<close>

lemmas run_defs = Allow_def NewRateLimiter_def getOrCreateLimiter_def Get_def Put_def Len_def
  NewCache_def Reserve_def reserve_def credited_def NewLimiter_def Rate_def EffectiveBurst_def
  Matches_def Cancel_def cancel_def OK_def Delay_def Second_def Seconds_def uint64_def
  DefaultMaxCacheSize_def Let_def Inc_def noMetrics_def

lemma layeredAfterOne_state:
  "limiters layeredAfterOne
     = [\<lparr>ratePerSecond = 3, burst = 3, availableTokens = 2, lastUpdateTime = 0\<rparr>,
        \<lparr>ratePerSecond = 1, burst = 1, availableTokens = 0, lastUpdateTime = 0\<rparr>]"
  "entries (cache layeredAfterOne)
     = [(LimiterKey ''client'' ''^/expensive$'', 1), (LimiterKey ''client'' [], 0)]"
  "capacity (cache layeredAfterOne) = 10000"
  "configs layeredAfterOne = [globalRule, expensiveRule]"
  by (simp_all add: layeredAfterOne_def layeredLimiter_def globalRule_def expensiveRule_def
      getExpensive_def run_defs)

lemma layered_second_call:
  "fst (Allow getExpensive ''client'' 0 layeredAfterOne) = (False, 1)"
  by (simp add: layeredAfterOne_def layeredLimiter_def globalRule_def expensiveRule_def
      getExpensive_def run_defs)



section \<open>Reservations on a covered and on an exhausted bucket\<close>

lemma delay_zero: "0 \<le> T \<Longrightarrow> 0 < r \<Longrightarrow> max 0 (- T / r) = (0 :: real)"
proof -
  assume "0 \<le> T" "0 < r"
  then have "- T / r \<le> 0" by (simp add: divide_le_0_iff)
  then show ?thesis by (simp only: max_absorb1)
qed

lemma delay_positive:
  "T < 0 \<Longrightarrow> 0 < r \<Longrightarrow> max 0 (- T / r) = - T / r \<and> (0 :: real) < - T / r"
proof -
  assume "T < 0" "0 < r"
  then have "0 < - T" by simp
  then have "0 < - T / r" using \<open>0 < r\<close> by (rule divide_pos_pos)
  then show ?thesis by (simp only: max_absorb2 less_imp_le)
qed

lemma reserve_covered:
  assumes "1 \<le> credited now l"
  shows "snd (reserve now a l) = \<lparr>ok = True, delay = 0, committedDebit = 1, limiter = a\<rparr>"
proof (cases "ratePerSecond l \<le> 0")
  case True
  then show ?thesis using assms by (simp add: reserve_def Let_def)
next
  case False
  then have "max 0 (- (credited now l - 1) / ratePerSecond l) = 0"
    using assms by (intro delay_zero) simp_all
  then show ?thesis
    using False assms unfolding reserve_def Let_def by simp
qed

lemma reserve_uncovered:
  assumes "credited now l < 1"
  shows "snd (reserve now a l)
         = (if ratePerSecond l \<le> 0
            then \<lparr>ok = False, delay = Second, committedDebit = 1, limiter = a\<rparr>
            else \<lparr>ok = True, delay = - (credited now l - 1) / ratePerSecond l,
                  committedDebit = 1, limiter = a\<rparr>)"
    and "0 < ratePerSecond l \<Longrightarrow> 0 < - (credited now l - 1) / ratePerSecond l"
proof -
  have neg: "credited now l - 1 < 0" using assms by simp
  show "0 < - (credited now l - 1) / ratePerSecond l" if "0 < ratePerSecond l"
    using delay_positive [OF neg that] by blast
  show "snd (reserve now a l)
         = (if ratePerSecond l \<le> 0
            then \<lparr>ok = False, delay = Second, committedDebit = 1, limiter = a\<rparr>
            else \<lparr>ok = True, delay = - (credited now l - 1) / ratePerSecond l,
                  committedDebit = 1, limiter = a\<rparr>)"
  proof (cases "ratePerSecond l \<le> 0")
    case True
    then show ?thesis using neg by (simp add: reserve_def Let_def)
  next
    case False
    then have "max 0 (- (credited now l - 1) / ratePerSecond l)
               = - (credited now l - 1) / ratePerSecond l"
      using delay_positive [OF neg, of "ratePerSecond l"] by simp
    then show ?thesis
      using False unfolding reserve_def Let_def by simp
  qed
qed

lemma checkReservations_single:
  "checkReservations [rr] 0 True
   = (if ok (reservation rr) \<and> \<not> 0 < delay (reservation rr) then (True, 0)
      else (False, if ok (reservation rr) then delay (reservation rr) else Second))"
  by (auto simp: OK_def Delay_def Let_def)

text \<open>A call under a single matching rule.\<close>

lemma Allow_single:
  assumes "configs rl = [c]" and "Matches c (URL_Path r)"
    and "fst (getOrCreateLimiter (LimiterKey key (PathRegexp c)) c rl)
         < length (limiters (snd (getOrCreateLimiter (LimiterKey key (PathRegexp c)) c rl)))"
  shows "fst (Allow r key now rl)
         = (let a = fst (getOrCreateLimiter (LimiterKey key (PathRegexp c)) c rl);
                L = limiters (snd (getOrCreateLimiter (LimiterKey key (PathRegexp c)) c rl));
                v = snd (reserve now a (L ! a))
            in if ok v \<and> \<not> 0 < delay v then (True, 0)
               else (False, if ok v then delay v else Second))"
    and "limiters (snd (Allow r key now rl))
         = (let a = fst (getOrCreateLimiter (LimiterKey key (PathRegexp c)) c rl);
                L = limiters (snd (getOrCreateLimiter (LimiterKey key (PathRegexp c)) c rl));
                v = snd (reserve now a (L ! a));
                l = fst (reserve now a (L ! a))
            in L[a := (if ok v \<and> \<not> 0 < delay v then l else cancel v l)])"
proof -
  let ?k = "LimiterKey key (PathRegexp c)"
  let ?a = "fst (getOrCreateLimiter ?k c rl)"
  let ?rlG = "snd (getOrCreateLimiter ?k c rl)"
  let ?v = "snd (reserve now ?a (limiters ?rlG ! ?a))"
  let ?l = "fst (reserve now ?a (limiters ?rlG ! ?a))"
  let ?rlR = "snd (Reserve ?a now ?rlG)"
  let ?rr = "\<lparr>cfg = c, reservation = ?v\<rparr>"
  have col: "collectReservations (configs rl) (URL_Path r) key now rl [] = ([?rr], ?rlR)"
    using assms(1,2) by (simp add: Let_def case_prod_unfold fst_Reserve)
  have chk: "checkReservations [?rr] 0 True
             = (if ok ?v \<and> \<not> 0 < delay ?v then (True, 0)
                else (False, if ok ?v then delay ?v else Second))"
    by (simp only: checkReservations_single ruleReservation.simps)
  have lR: "limiters ?rlR = (limiters ?rlG)[?a := ?l]"
    by (simp add: limiters_Reserve)
  show "fst (Allow r key now rl)
         = (let a = ?a; L = limiters ?rlG; v = snd (reserve now a (L ! a))
            in if ok v \<and> \<not> 0 < delay v then (True, 0)
               else (False, if ok v then delay v else Second))"
    by (simp add: Allow_def col chk Let_def del: checkReservations.simps)
  have "limiters (cancelReservations [?rr] ?rlR) = (limiters ?rlG)[?a := cancel ?v ?l]"
    using assms(3) by (simp add: Let_def Cancel_def lR)
  then show "limiters (snd (Allow r key now rl))
         = (let a = ?a; L = limiters ?rlG; v = snd (reserve now a (L ! a));
                l = fst (reserve now a (L ! a))
            in L[a := (if ok v \<and> \<not> 0 < delay v then l else cancel v l)])"
    by (simp add: Allow_def col chk Let_def lR del: checkReservations.simps)
qed

lemma getOrCreateLimiter_hit:
  assumes "map_of (entries (cache rl)) k = Some a"
  shows "fst (getOrCreateLimiter k c rl) = a"
    and "limiters (snd (getOrCreateLimiter k c rl)) = limiters rl"
    and "map_of (entries (cache (snd (getOrCreateLimiter k c rl)))) k = Some a"
  using assms
  by (simp_all add: fst_getOrCreateLimiter limiters_getOrCreateLimiter
      entries_getOrCreateLimiter_hit)

lemma getOrCreateLimiter_miss:
  assumes "map_of (entries (cache rl)) k = None"
  shows "fst (getOrCreateLimiter k c rl) = length (limiters rl)"
    and "limiters (snd (getOrCreateLimiter k c rl))
         = limiters rl @ [NewLimiter (Rate c) (EffectiveBurst c)]"
    and "0 < capacity (cache rl) \<Longrightarrow>
         map_of (entries (cache (snd (getOrCreateLimiter k c rl)))) k = Some (length (limiters rl))"
proof -
  have absent: "k \<notin> fst ` set (entries (cache rl))"
    using assms by (simp add: map_of_eq_None_iff)
  show "fst (getOrCreateLimiter k c rl) = length (limiters rl)"
    using assms by (simp add: fst_getOrCreateLimiter)
  show "limiters (snd (getOrCreateLimiter k c rl))
         = limiters rl @ [NewLimiter (Rate c) (EffectiveBurst c)]"
    using assms by (simp add: limiters_getOrCreateLimiter)
  show "map_of (entries (cache (snd (getOrCreateLimiter k c rl)))) k = Some (length (limiters rl))"
    if "0 < capacity (cache rl)"
    using that by (simp add: entries_getOrCreateLimiter_miss [OF absent])
qed

text \<open>The refill of a bucket is bounded by the elapsed time times the rate.\<close>

lemma credited_bounds:
  assumes "lastUpdateTime l \<le> now"
  shows "min (of_int (burst l)) (availableTokens l) \<le> credited now l"
    and "credited now l
         \<le> availableTokens l + (now - lastUpdateTime l) * refillRate (ratePerSecond l)"
proof -
  have e: "max 0 (now - lastUpdateTime l) = now - lastUpdateTime l"
    using assms by simp
  have nn: "0 \<le> (now - lastUpdateTime l) * refillRate (ratePerSecond l)"
    using assms by (simp add: refillRate_def)
  have c: "credited now l
           = min (of_int (burst l))
               (availableTokens l + (now - lastUpdateTime l) * refillRate (ratePerSecond l))"
    unfolding credited_def e by (simp add: refillRate_def)
  show "min (of_int (burst l)) (availableTokens l) \<le> credited now l"
    unfolding c using nn by (simp add: min_def)
  show "credited now l
         \<le> availableTokens l + (now - lastUpdateTime l) * refillRate (ratePerSecond l)"
    unfolding c by simp
qed


lemma AllowCalls_Cons:
  "AllowCalls ((r, key, t) # calls) rl
   = (fst (Allow r key t rl) # fst (AllowCalls calls (snd (Allow r key t rl))),
      snd (AllowCalls calls (snd (Allow r key t rl))))"
  by (simp add: Let_def case_prod_unfold)

lemma burst_run:
  assumes "configs rl = [c]" and "Matches c (URL_Path r)"
    and "map_of (entries (cache rl)) (LimiterKey key (PathRegexp c)) = Some a"
    and "a < length (limiters rl)"
    and "burst (limiters rl ! a) = B"
    and "lastUpdateTime (limiters rl ! a) = t0"
    and "of_int B - of_nat j \<le> availableTokens (limiters rl ! a)"
    and "availableTokens (limiters rl ! a)
         \<le> of_int B - of_nat j + (t0 - tstart) * refillRate (ratePerSecond (limiters rl ! a))"
    and "sorted (t0 # ts)" and "tstart \<le> t0"
    and "(last (t0 # ts) - tstart) * refillRate (ratePerSecond (limiters rl ! a)) < 1"
    and "j + length ts = nat B + 1" and "j \<le> nat B" and "0 \<le> B"
  shows "map fst (fst (AllowCalls (map (\<lambda>t. (r, key, t)) ts) rl))
           = replicate (length ts - 1) True @ [False]
         \<and> 0 < snd (last (fst (AllowCalls (map (\<lambda>t. (r, key, t)) ts) rl)))"
  using assms
proof (induction ts arbitrary: rl j t0)
  case Nil
  then show ?case by simp
next
  case (Cons t ts)
  let ?k = "LimiterKey key (PathRegexp c)"
  let ?l = "limiters rl ! a"
  let ?rho = "refillRate (ratePerSecond ?l)"
  let ?rlA = "snd (Allow r key t rl)"
  have hit: "fst (getOrCreateLimiter ?k c rl) = a"
    "limiters (snd (getOrCreateLimiter ?k c rl)) = limiters rl"
    "map_of (entries (cache (snd (getOrCreateLimiter ?k c rl)))) ?k = Some a"
    using getOrCreateLimiter_hit [OF Cons.prems(3), of c] by simp_all
  have al: "fst (getOrCreateLimiter ?k c rl) < length (limiters (snd (getOrCreateLimiter ?k c rl)))"
    using Cons.prems(4) by (simp add: hit)
  note single = Allow_single [OF Cons.prems(1,2) al, of now for now, unfolded hit Let_def]
  have t0t: "t0 \<le> t"
    using Cons.prems(9) by simp
  have lt: "lastUpdateTime ?l \<le> t"
    using t0t Cons.prems(6) by simp
  note cb = credited_bounds [OF lt, unfolded Cons.prems(5,6)]
  have rho: "0 \<le> ?rho"
    by (simp add: refillRate_def)
  have up: "credited t ?l \<le> of_int B - of_nat j + (t - tstart) * ?rho"
  proof -
    have "credited t ?l \<le> availableTokens ?l + (t - t0) * ?rho"
      using cb(2) .
    also have "\<dots> \<le> of_int B - of_nat j + (t0 - tstart) * ?rho + (t - t0) * ?rho"
      using Cons.prems(8) by simp
    also have "\<dots> = of_int B - of_nat j + (t - tstart) * ?rho"
      by (simp add: algebra_simps)
    finally show ?thesis .
  qed
  show ?case
  proof (cases "ts = []")
    case True
    then have jB: "j = nat B"
      using Cons.prems(12) by simp
    then have "of_int B - of_nat j = (0 :: real)"
      using Cons.prems(14) by simp
    then have "credited t ?l \<le> (t - tstart) * ?rho"
      using up by simp
    also have "\<dots> < 1"
      using Cons.prems(11) True by simp
    finally have lt1: "credited t ?l < 1" .
    note un = reserve_uncovered(1) [OF lt1, of a] reserve_uncovered(2) [OF lt1]
    have "\<not> fst (fst (Allow r key t rl)) \<and> 0 < snd (fst (Allow r key t rl))"
    proof (cases "ratePerSecond ?l \<le> 0")
      case True
      then show ?thesis
        by (simp add: single(1) un(1) Second_def)
    next
      case False
      then have "0 < - (credited t ?l - 1) / ratePerSecond ?l"
        using un(2) by simp
      then show ?thesis
        using False by (simp add: single(1) un(1))
    qed
    then show ?thesis
      using True by (simp add: AllowCalls_Cons del: AllowCalls.simps(2))
  next
    case False
    then have jB: "Suc j \<le> nat B"
      using Cons.prems(12) by (cases ts) simp_all
    then have "1 \<le> of_int B - (of_nat j :: real)"
      using Cons.prems(14) by (simp add: nat_le_iff)
    moreover have "of_int B - of_nat j \<le> min (of_int B) (availableTokens ?l)"
      using Cons.prems(7) by simp
    ultimately have ge1: "1 \<le> credited t ?l"
      using cb(1) by linarith
    note cov = reserve_covered [OF ge1, of a]
    have res: "fst (Allow r key t rl) = (True, 0)"
      by (simp add: single(1) cov)
    have lim: "limiters ?rlA = (limiters rl)[a := fst (reserve t a ?l)]"
      by (simp add: single(2) cov)
    have la: "limiters ?rlA ! a = ?l\<lparr>availableTokens := credited t ?l - 1, lastUpdateTime := t\<rparr>"
      using Cons.prems(4) by (simp add: lim fst_reserve)
    have q1: "configs ?rlA = [c]"
      using Cons.prems(1) by simp
    have q3: "map_of (entries (cache ?rlA)) ?k = Some a"
      using hit(3) by (simp add: cache_Allow_single [OF Cons.prems(1,2)])
    have q4: "a < length (limiters ?rlA)"
      using Cons.prems(4) by (simp add: lim)
    have q5: "burst (limiters ?rlA ! a) = B"
      using Cons.prems(5) by (simp add: la)
    have q6: "lastUpdateTime (limiters ?rlA ! a) = t"
      by (simp add: la)
    have q7: "of_int B - of_nat (Suc j) \<le> availableTokens (limiters ?rlA ! a)"
      using cb(1) Cons.prems(7) by (simp add: la)
    have rr: "ratePerSecond (limiters ?rlA ! a) = ratePerSecond ?l"
      by (simp add: la)
    have q8: "availableTokens (limiters ?rlA ! a)
              \<le> of_int B - of_nat (Suc j) + (t - tstart) * refillRate (ratePerSecond (limiters ?rlA ! a))"
      using up by (simp add: la)
    have q9: "sorted (t # ts)"
      using Cons.prems(9) by simp
    have q10: "tstart \<le> t"
      using Cons.prems(10) t0t by simp
    have q11: "(last (t # ts) - tstart) * refillRate (ratePerSecond (limiters ?rlA ! a)) < 1"
      using Cons.prems(11) by (simp add: rr)
    have q12: "Suc j + length ts = nat B + 1"
      using Cons.prems(12) by simp
    note ih = Cons.IH [OF q1 Cons.prems(2) q3 q4 q5 q6 q7 q8 q9 q10 q11 q12 jB Cons.prems(14)]
    have ne: "fst (AllowCalls (map (\<lambda>t. (r, key, t)) ts) ?rlA) \<noteq> []"
      using ih by auto
    have "replicate (length ts) True = True # replicate (length ts - 1) True"
      using False by (cases ts) simp_all
    then show ?thesis
      using ih ne by (simp add: AllowCalls_Cons res del: AllowCalls.simps(2))
  qed
qed








lemma missingBuckets_Reserve [simp]:
  "missingBuckets cs path key (snd (Reserve a now rl)) = missingBuckets cs path key rl"
  by (simp add: missingBuckets_def)





section \<open>Limiters created during a call\<close>

lemma set_entries_getOrCreateLimiter:
  "set (entries (cache (snd (getOrCreateLimiter k c rl))))
   \<subseteq> insert (k, length (limiters rl)) (set (entries (cache rl)))"
  using set_entries_Put [of k "length (limiters rl)" "snd (Get k (cache rl))"]
    set_entries_Get [of k "cache rl"]
  by (auto simp: cache_getOrCreateLimiter fst_Get split: option.splits)

lemma collectReservations_new:
  assumes "\<forall>e \<in> set (entries (cache rl)). fst e = K \<longrightarrow> n \<le> snd e"
    and "n \<le> length (limiters rl)"
    and "\<forall>rr \<in> set rs. LimiterKey key (PathRegexp (cfg rr)) = K \<longrightarrow> n \<le> limiter (reservation rr)"
  shows "\<forall>rr \<in> set (fst (collectReservations cs path key now rl rs)).
           LimiterKey key (PathRegexp (cfg rr)) = K \<longrightarrow> n \<le> limiter (reservation rr)"
  using assms
proof (induction cs arbitrary: rl rs)
  case Nil
  then show ?case by simp
next
  case (Cons c cs)
  show ?case
  proof (cases "Matches c path")
    case False
    then show ?thesis
      using Cons.IH [OF Cons.prems] by simp
  next
    case True
    let ?k = "LimiterKey key (PathRegexp c)"
    let ?a = "fst (getOrCreateLimiter ?k c rl)"
    let ?rlG = "snd (getOrCreateLimiter ?k c rl)"
    let ?v = "fst (Reserve ?a now ?rlG)"
    let ?rlR = "snd (Reserve ?a now ?rlG)"
    let ?rr = "\<lparr>cfg = c, reservation = ?v\<rparr>"
    have step: "collectReservations (c # cs) path key now rl rs
                = collectReservations cs path key now ?rlR (rs @ [?rr])"
      using True by (simp add: Let_def case_prod_unfold)
    have p1: "\<forall>e \<in> set (entries (cache ?rlR)). fst e = K \<longrightarrow> n \<le> snd e"
      using set_entries_getOrCreateLimiter [of ?k c rl] Cons.prems(1,2) by auto
    have p2: "n \<le> length (limiters ?rlR)"
      using Cons.prems(2) length_limiters_getOrCreateLimiter [of rl ?k c]
      by (simp add: limiters_Reserve)
    have a: "n \<le> ?a" if "?k = K"
    proof (cases "map_of (entries (cache rl)) ?k")
      case None
      then show ?thesis using Cons.prems(2) by (simp add: fst_getOrCreateLimiter)
    next
      case (Some b)
      then have "(?k, b) \<in> set (entries (cache rl))" by (rule map_of_SomeD)
      then have "n \<le> b" using Cons.prems(1) that by auto
      then show ?thesis using Some by (simp add: fst_getOrCreateLimiter)
    qed
    have p3: "\<forall>rr \<in> set (rs @ [?rr]).
                LimiterKey key (PathRegexp (cfg rr)) = K \<longrightarrow> n \<le> limiter (reservation rr)"
      using Cons.prems(3) a by (auto simp: fst_Reserve)
    show ?thesis
      unfolding step by (rule Cons.IH [OF p1 p2 p3])
  qed
qed

section \<open>Commit or roll back\<close>



section \<open>The advised wait\<close>

lemma slowAfterOne_state:
  "limiters slowAfterOne
     = [\<lparr>ratePerSecond = 1 / 10, burst = 1, availableTokens = 0, lastUpdateTime = 0\<rparr>,
        \<lparr>ratePerSecond = 0, burst = 1, availableTokens = 0, lastUpdateTime = 0\<rparr>]"
  "entries (cache slowAfterOne)
     = [(LimiterKey ''client'' ''^/expensive$'', 1), (LimiterKey ''client'' [], 0)]"
  "capacity (cache slowAfterOne) = 10000"
  "configs slowAfterOne = [tenSecondRule, noWindowRule]"
  by (simp_all add: slowAfterOne_def slowLimiter_def tenSecondRule_def noWindowRule_def
      getExpensive_def run_defs)

lemma slow_reservations:
  "map reservation (fst (collectReservations (configs slowAfterOne) (URL_Path getExpensive)
      ''client'' 0 slowAfterOne []))
   = [\<lparr>ok = True, delay = 10, committedDebit = 1, limiter = 0\<rparr>,
      \<lparr>ok = False, delay = 1, committedDebit = 1, limiter = 1\<rparr>]"
  by (simp add: slowAfterOne_state)
    (simp add: tenSecondRule_def noWindowRule_def getExpensive_def getOrCreateLimiter_def
      Get_def slowAfterOne_state Reserve_def reserve_def credited_def Let_def Matches_def
      Second_def)

lemma maxDenyingDelay_map:
  "maxDenyingDelay rs
   = Max (set (map (\<lambda>r. if ok r then delay r else Second)
                 (filter (\<lambda>r. \<not> ok r \<or> 0 < delay r) (map reservation rs))))"
  by (simp add: maxDenyingDelay_def filter_map comp_def denying_def contribution_def
      OK_def Delay_def)

lemma layered_reservations:
  "map reservation (fst (collectReservations (configs layeredAfterOne) (URL_Path getExpensive)
      ''client'' 0 layeredAfterOne []))
   = [\<lparr>ok = True, delay = 0, committedDebit = 1, limiter = 0\<rparr>,
      \<lparr>ok = True, delay = 1, committedDebit = 1, limiter = 1\<rparr>]"
  by (simp add: layeredAfterOne_state)
    (simp add: globalRule_def expensiveRule_def getExpensive_def getOrCreateLimiter_def
      Get_def layeredAfterOne_state Reserve_def reserve_def credited_def Let_def Matches_def
      Second_def)

text \<open>
  Claim C2, as stated, fails. After one permitted request under the rule of one
  request per ten seconds and the rule with no window, the next request at the same
  time collects a reservation with a delay of 10 seconds and a reservation that is
  not OK. The maximum over the denying reservations is 10 seconds, but \<open>Allow\<close>
  returns 1 second: the scan stops at the reservation that is not OK and sets the
  wait to one second.
\<close>

theorem Allow_retryAfter_counterexample:
  "fst (Allow getExpensive ''client'' 0 slowAfterOne) = (False, Second)
   \<and> maxDenyingDelay (fst (collectReservations (configs slowAfterOne) (URL_Path getExpensive)
        ''client'' 0 slowAfterOne [])) = 10 * Second
   \<and> snd (fst (Allow getExpensive ''client'' 0 slowAfterOne))
       \<noteq> maxDenyingDelay (fst (collectReservations (configs slowAfterOne) (URL_Path getExpensive)
            ''client'' 0 slowAfterOne []))"
proof -
  have a: "fst (Allow getExpensive ''client'' 0 slowAfterOne) = (False, Second)"
    by (simp add: slowAfterOne_def slowLimiter_def tenSecondRule_def noWindowRule_def
        getExpensive_def run_defs)
  have b: "maxDenyingDelay (fst (collectReservations (configs slowAfterOne) (URL_Path getExpensive)
        ''client'' 0 slowAfterOne [])) = 10 * Second"
    unfolding maxDenyingDelay_map slow_reservations by (simp add: Second_def)
  show ?thesis
    using a b by (simp add: Second_def)
qed

text \<open>
  Claim C2, amended. The wait advised by a denied call is one second when some
  collected reservation is not OK; when all of them are OK it is the maximum of the
  delays of the denying reservations.
\<close>

theorem Allow_retryAfter_amended:
  assumes "Allow r key now rl = ((False, w), rl')"
  shows "w = (if \<exists>rr \<in> set (fst (collectReservations (configs rl) (URL_Path r) key now rl [])).
                   \<not> OK (reservation rr)
              then Second
              else maxDenyingDelay (fst (collectReservations (configs rl) (URL_Path r) key now rl [])))"
  by (rule checkReservations_denied [OF Allow_denied_check [OF assms]])

text \<open>
  The layered limiter after one permitted request: both reservations of the second
  request are OK, the expensive rule denies with a delay of one second.
\<close>

theorem Allow_retryAfter_amended_witness:
  "fst (Allow getExpensive ''client'' 0 layeredAfterOne) = (False, Second)
   \<and> maxDenyingDelay (fst (collectReservations (configs layeredAfterOne) (URL_Path getExpensive)
        ''client'' 0 layeredAfterOne [])) = Second"
proof -
  have a1: "fst (Allow getExpensive ''client'' 0 layeredAfterOne) = (False, Second)"
    using layered_second_call by (simp add: Second_def)
  then have a: "Allow getExpensive ''client'' 0 layeredAfterOne
           = ((False, Second), snd (Allow getExpensive ''client'' 0 layeredAfterOne))"
    by (simp add: prod_eq_iff)
  have oks: "\<not> (\<exists>rr \<in> set (fst (collectReservations (configs layeredAfterOne)
                 (URL_Path getExpensive) ''client'' 0 layeredAfterOne [])).
               \<not> OK (reservation rr))"
  proof -
    have "list_all ok (map reservation (fst (collectReservations (configs layeredAfterOne)
            (URL_Path getExpensive) ''client'' 0 layeredAfterOne [])))"
      unfolding layered_reservations by simp
    then show ?thesis by (simp add: list_all_iff OK_def)
  qed
  have "Second = maxDenyingDelay (fst (collectReservations (configs layeredAfterOne)
          (URL_Path getExpensive) ''client'' 0 layeredAfterOne []))"
    using Allow_retryAfter_amended [OF a] oks by (simp only: if_False)
  then show ?thesis
    using a1 by simp
qed

section \<open>The burst of a single rule\<close>

text \<open>
  Claim C3. Take a limiter with a single rule of effective burst \<open>B \<ge> 1\<close>, a cache
  that takes entries, a request whose path matches the rule and a client with no
  bucket for the rule. Let \<open>B + 1\<close> calls be made for this client at times that do
  not decrease, the last less than one token's refill after the first. Then the
  first \<open>B\<close> calls are permitted and the last call is denied with a positive
  advised wait.
\<close>

theorem burst_then_denied:
  assumes "configs rl = [c]" and "Matches c (URL_Path r)"
    and "map_of (entries (cache rl)) (LimiterKey key (PathRegexp c)) = None"
    and "0 < capacity (cache rl)"
    and "1 \<le> EffectiveBurst c"
    and "length ts = nat (EffectiveBurst c) + 1"
    and "sorted ts"
    and "(last ts - hd ts) * Rate c < 1"
  shows "map fst (fst (AllowCalls (map (\<lambda>t. (r, key, t)) ts) rl))
           = replicate (nat (EffectiveBurst c)) True @ [False]
         \<and> 0 < snd (last (fst (AllowCalls (map (\<lambda>t. (r, key, t)) ts) rl)))"
proof -
  let ?B = "EffectiveBurst c"
  let ?k = "LimiterKey key (PathRegexp c)"
  obtain t1 ts' where ts: "ts = t1 # ts'"
    using assms(6) by (cases ts) simp_all
  have len': "length ts' = nat ?B"
    using assms(6) ts by simp
  then have ne': "ts' \<noteq> []"
    using assms(5) by auto
  let ?a = "length (limiters rl)"
  let ?NL = "NewLimiter (Rate c) ?B"
  let ?rlA = "snd (Allow r key t1 rl)"
  have miss: "fst (getOrCreateLimiter ?k c rl) = ?a"
    "limiters (snd (getOrCreateLimiter ?k c rl)) = limiters rl @ [?NL]"
    "map_of (entries (cache (snd (getOrCreateLimiter ?k c rl)))) ?k = Some ?a"
    using getOrCreateLimiter_miss [OF assms(3), of c] assms(4) by simp_all
  have al: "fst (getOrCreateLimiter ?k c rl) < length (limiters (snd (getOrCreateLimiter ?k c rl)))"
    by (simp add: miss)
  note single = Allow_single [OF assms(1,2) al, of t1, unfolded miss Let_def]
  have full: "credited t1 ?NL = of_int ?B"
    using credited_full [of ?NL t1] by (simp add: NewLimiter_def)
  then have ge1: "1 \<le> credited t1 ?NL"
    using assms(5) by simp
  note cov = reserve_covered [OF ge1, of ?a]
  have res: "fst (Allow r key t1 rl) = (True, 0)"
    by (simp add: single(1) cov)
  have la: "limiters ?rlA ! ?a
            = ?NL\<lparr>availableTokens := of_int ?B - 1, lastUpdateTime := t1\<rparr>"
    by (simp add: single(2) cov fst_reserve full)
  have q1: "configs ?rlA = [c]"
    using assms(1) by simp
  have q3: "map_of (entries (cache ?rlA)) ?k = Some ?a"
    using miss(3) by (simp add: cache_Allow_single [OF assms(1,2)])
  have q4: "?a < length (limiters ?rlA)"
    by (simp add: single(2))
  have q5: "burst (limiters ?rlA ! ?a) = ?B"
    by (simp add: la NewLimiter_def)
  have q6: "lastUpdateTime (limiters ?rlA ! ?a) = t1"
    by (simp add: la)
  have rate: "ratePerSecond (limiters ?rlA ! ?a) = Rate c"
    by (simp add: la NewLimiter_def)
  have q7: "of_int ?B - of_nat 1 \<le> availableTokens (limiters ?rlA ! ?a)"
    by (simp add: la)
  have q8: "availableTokens (limiters ?rlA ! ?a)
            \<le> of_int ?B - of_nat 1 + (t1 - t1) * refillRate (ratePerSecond (limiters ?rlA ! ?a))"
    by (simp add: la)
  have q9: "sorted (t1 # ts')"
    using assms(7) ts by simp
  have el: "0 \<le> last ts - t1"
    using assms(7) ts ne' by (simp add: last_in_set)
  have q11: "(last (t1 # ts') - t1) * refillRate (ratePerSecond (limiters ?rlA ! ?a)) < 1"
  proof (cases "Rate c \<le> 0")
    case True
    then show ?thesis by (simp add: rate refillRate_def)
  next
    case False
    then show ?thesis
      using assms(8) ts by (simp add: rate refillRate_def)
  qed
  have q12: "1 + length ts' = nat ?B + 1"
    using len' by simp
  have q13: "1 \<le> nat ?B" and q14: "0 \<le> ?B"
    using assms(5) by simp_all
  note run = burst_run [OF q1 assms(2) q3 q4 q5 q6 q7 q8 q9 order_refl q11 q12 q13 q14]
  have ne: "fst (AllowCalls (map (\<lambda>t. (r, key, t)) ts') ?rlA) \<noteq> []"
    using run by auto
  have "replicate (length ts') True = True # replicate (length ts' - 1) True"
    using ne' by (cases ts') simp_all
  then have "replicate (nat ?B) True = True # replicate (length ts' - 1) True"
    by (simp only: len')
  then show ?thesis
    using run ne by (simp add: ts AllowCalls_Cons res del: AllowCalls.simps(2))
qed

text \<open>
  The global rule alone, with burst 3 and 3 requests per second: four calls within
  three tenths of a second.
\<close>

theorem burst_then_denied_witness:
  "map fst (fst (AllowCalls (map (\<lambda>t. (getExpensive, ''client'', t)) [0, 1 / 10, 1 / 5, 3 / 10])
      (NewRateLimiter ''svc'' [globalRule] [])))
     = [True, True, True, False]
   \<and> 0 < snd (last (fst (AllowCalls
          (map (\<lambda>t. (getExpensive, ''client'', t)) [0, 1 / 10, 1 / 5, 3 / 10])
          (NewRateLimiter ''svc'' [globalRule] []))))"
proof -
  let ?rl = "NewRateLimiter ''svc'' [globalRule] []"
  have h1: "configs ?rl = [globalRule]"
    by (simp add: NewRateLimiter_def)
  have h2: "Matches globalRule (URL_Path getExpensive)"
    by (simp add: Matches_def globalRule_def)
  have h3: "map_of (entries (cache ?rl)) (LimiterKey ''client'' (PathRegexp globalRule)) = None"
    by (simp add: cache_NewRateLimiter NewCache_def)
  have h4: "0 < capacity (cache ?rl)"
    by (simp add: NewRateLimiter_def NewCache_def uint64_def DefaultMaxCacheSize_def)
  have b: "EffectiveBurst globalRule = 3"
    by (simp add: EffectiveBurst_def globalRule_def)
  have h5: "1 \<le> EffectiveBurst globalRule"
    by (simp add: b)
  have h6: "length [0, 1 / 10, 1 / 5, 3 / 10 :: real] = nat (EffectiveBurst globalRule) + 1"
    by (simp add: b)
  have h7: "sorted [0, 1 / 10, 1 / 5, 3 / 10 :: real]"
    by simp
  have h8: "(last [0, 1 / 10, 1 / 5, 3 / 10] - hd [0, 1 / 10, 1 / 5, 3 / 10]) * Rate globalRule < 1"
    by (simp add: Rate_def globalRule_def Second_def Seconds_def)
  have r: "replicate (nat (EffectiveBurst globalRule)) True @ [False] = [True, True, True, False]"
    by (simp add: b numeral_3_eq_3)
  show ?thesis
    using burst_then_denied [OF h1 h2 h3 h4 h5 h6 h7 h8]
    by (simp only: r)
qed

section \<open>A rule with no window\<close>





section \<open>A bucket that is not in the cache\<close>

lemma tiny_states:
  "entries (cache tinyExhausted) = [(LimiterKey ''a'' ''^/expensive$'', 0)]"
  "entries (cache tinyEvicted) = [(LimiterKey ''b'' ''^/expensive$'', 1)]"
  "configs tinyEvicted = [expensiveRule]"
  "limiters tinyEvicted
     = [\<lparr>ratePerSecond = 1, burst = 1, availableTokens = 0, lastUpdateTime = 0\<rparr>,
        \<lparr>ratePerSecond = 1, burst = 1, availableTokens = 0, lastUpdateTime = 0\<rparr>]"
  by (simp_all add: tinyEvicted_def tinyExhausted_def tinyLimiter_def expensiveRule_def
      getExpensive_def WithMaxCacheSize_def run_defs)

lemma tiny_denied: "fst (Allow getExpensive ''a'' 0 tinyExhausted) = (False, 1)"
  by (simp add: tinyExhausted_def tinyLimiter_def expensiveRule_def
      getExpensive_def WithMaxCacheSize_def run_defs)

text \<open>
  Claim C9. When the cache has no entry for a client and a rule's path pattern,
  whether it never had one or the entry has been evicted, the lookup of the key
  creates a limiter at a new pointer, appended to the store, with the rate and the
  effective burst of the rule and with as many tokens as its burst, at any time.
  In a call of \<open>Allow\<close> every reservation of a rule with this pattern is made on a
  limiter created during the call; under a single matching rule with a burst of at
  least 1 the call is permitted. Whatever the client had consumed from an evicted
  bucket is forgotten.
\<close>

theorem absent_key_starts_full:
  assumes "map_of (entries (cache rl)) (LimiterKey key p) = None"
  shows "fst (getOrCreateLimiter (LimiterKey key p) c rl) = length (limiters rl)
    \<and> limiters (snd (getOrCreateLimiter (LimiterKey key p) c rl))
        = limiters rl @ [NewLimiter (Rate c) (EffectiveBurst c)]
    \<and> availableTokens (NewLimiter (Rate c) (EffectiveBurst c)) = of_int (EffectiveBurst c)
    \<and> credited now (NewLimiter (Rate c) (EffectiveBurst c)) = of_int (EffectiveBurst c)
    \<and> (\<forall>rr \<in> set (fst (collectReservations (configs rl) (URL_Path r) key now rl [])).
          PathRegexp (cfg rr) = p \<longrightarrow> length (limiters rl) \<le> limiter (reservation rr))
    \<and> (configs rl = [c] \<and> PathRegexp c = p \<and> Matches c (URL_Path r) \<and> 1 \<le> EffectiveBurst c
          \<longrightarrow> fst (Allow r key now rl) = (True, 0))"
proof -
  let ?K = "LimiterKey key p"
  let ?NL = "NewLimiter (Rate c) (EffectiveBurst c)"
  note miss = getOrCreateLimiter_miss(1,2) [OF assms, of c]
  have t: "availableTokens ?NL = of_int (EffectiveBurst c)"
    by (simp add: NewLimiter_def)
  have full: "credited now ?NL = of_int (EffectiveBurst c)"
    using credited_full [of ?NL now] by (simp add: NewLimiter_def)
  have absent: "\<forall>e \<in> set (entries (cache rl)). fst e = ?K \<longrightarrow> length (limiters rl) \<le> snd e"
    using assms by (force simp: map_of_eq_None_iff)
  have new: "\<forall>rr \<in> set (fst (collectReservations (configs rl) (URL_Path r) key now rl [])).
          PathRegexp (cfg rr) = p \<longrightarrow> length (limiters rl) \<le> limiter (reservation rr)"
    using collectReservations_new [OF absent order_refl, of "[]" key "configs rl" "URL_Path r" now]
    by simp
  have one: "configs rl = [c] \<and> PathRegexp c = p \<and> Matches c (URL_Path r) \<and> 1 \<le> EffectiveBurst c
          \<longrightarrow> fst (Allow r key now rl) = (True, 0)"
  proof (intro impI, elim conjE)
    assume h: "configs rl = [c]" "PathRegexp c = p" "Matches c (URL_Path r)" "1 \<le> EffectiveBurst c"
    have m: "fst (getOrCreateLimiter (LimiterKey key (PathRegexp c)) c rl) = length (limiters rl)"
      "limiters (snd (getOrCreateLimiter (LimiterKey key (PathRegexp c)) c rl)) = limiters rl @ [?NL]"
      using miss h(2) by simp_all
    have al: "fst (getOrCreateLimiter (LimiterKey key (PathRegexp c)) c rl)
              < length (limiters (snd (getOrCreateLimiter (LimiterKey key (PathRegexp c)) c rl)))"
      by (simp add: m)
    have ge1: "1 \<le> credited now ?NL"
      using full h(4) by simp
    show "fst (Allow r key now rl) = (True, 0)"
      using Allow_single(1) [OF h(1,3) al, of now]
        reserve_covered [OF ge1, of "length (limiters rl)"]
      by (simp add: m Let_def)
  qed
  show ?thesis
    by (intro conjI miss t full new one)
qed

text \<open>
  The limiter whose cache holds one entry: the client \<open>a\<close> has used its only token
  and is denied; the request of the client \<open>b\<close> evicts the bucket of \<open>a\<close>; the next
  request of \<open>a\<close>, at the same time, gets a new limiter and is permitted.
\<close>

theorem absent_key_starts_full_witness:
  "fst (Allow getExpensive ''a'' 0 tinyExhausted) = (False, 1)
   \<and> map_of (entries (cache tinyEvicted)) (LimiterKey ''a'' ''^/expensive$'') = None
   \<and> fst (getOrCreateLimiter (LimiterKey ''a'' ''^/expensive$'') expensiveRule tinyEvicted) = 2
   \<and> fst (Allow getExpensive ''a'' 0 tinyEvicted) = (True, 0)"
proof -
  have h: "map_of (entries (cache tinyEvicted)) (LimiterKey ''a'' ''^/expensive$'') = None"
    by (simp add: tiny_states)
  note T = absent_key_starts_full [OF h, of expensiveRule 0 getExpensive]
  have c1: "fst (getOrCreateLimiter (LimiterKey ''a'' ''^/expensive$'') expensiveRule tinyEvicted)
            = length (limiters tinyEvicted)"
    using T by (elim conjE)
  have g: "configs tinyEvicted = [expensiveRule] \<and> PathRegexp expensiveRule = ''^/expensive$''
           \<and> Matches expensiveRule (URL_Path getExpensive) \<and> 1 \<le> EffectiveBurst expensiveRule"
    by (simp add: tiny_states) (simp add: expensiveRule_def getExpensive_def Matches_def
        EffectiveBurst_def)
  have c2: "fst (Allow getExpensive ''a'' 0 tinyEvicted) = (True, 0)"
    using T g by (elim conjE) blast
  show ?thesis
    using tiny_denied h c1 c2 by (simp add: tiny_states)
qed

end
